theory Spec2Isabelle
  imports Main "HOL-Library.Sublist"
begin

section \<open>slowjson: a position-tracking JSON parser (src/slowjson/parser.go)\<close>

text \<open>
  The Go package \<^verbatim>\<open>slowjson\<close> parses a JSON-like text into a tree of nodes, each
  carrying the line and column where it starts and ends, and renders the source lines
  around a node. This theory embeds the package function by function.

  Conventions of the embedding:
  \<^item> a Go \<^verbatim>\<open>string\<close> is a sequence of bytes: \<^typ>\<open>string\<close>;
  \<^item> a \<^verbatim>\<open>rune\<close> is a code point: a natural number (the parser only compares runes);
  \<^item> \<^verbatim>\<open>int\<close> is \<^typ>\<open>int\<close>. The counters of the parser are bounded by the number
    of runes plus one, and a Go slice has fewer than \<open>2^63\<close> elements, so their
    increments never wrap. The two window bounds of \<^verbatim>\<open>DebugContext\<close> add and
    subtract numbers chosen by the caller, so there the 64-bit wrap-around is written out;
  \<^item> a method with a pointer receiver \<^verbatim>\<open>p *Parser\<close> takes the parser and returns
    the updated parser beside its results;
  \<^item> a pointer \<^verbatim>\<open>*Node\<close> that may be \<^verbatim>\<open>nil\<close> is a \<^typ>\<open>'a option\<close>, and so is an
    \<^verbatim>\<open>error\<close>, which is its message;
  \<^item> the mutually recursive parsing functions take a fuel argument that bounds the number of
    nested calls and loop iterations; running out of fuel is the result \<open>None\<close>.
\<close>

subsection \<open>Runes, UTF-8 and formatting (the parts of the Go runtime the package uses)\<close>

type_synonym rune = nat

abbreviation RuneError :: rune where "RuneError \<equiv> 0xFFFD"

definition in_range :: "nat \<Rightarrow> nat \<Rightarrow> char \<Rightarrow> bool" where
  "in_range lo hi c = (lo \<le> of_char c \<and> (of_char c :: nat) \<le> hi)"

text \<open>
  \<^verbatim>\<open>utf8.DecodeRuneInString\<close>: the first code point of a byte string and its width; a
  byte that starts no well-formed encoding is \<^verbatim>\<open>RuneError\<close> of width 1.
\<close>

fun DecodeRune :: "string \<Rightarrow> rune \<times> nat" where
  "DecodeRune [] = (RuneError, 0)"
| "DecodeRune (c0 # cs) =
     (let b0 = (of_char c0 :: nat) in
      if b0 < 0x80 then (b0, 1)
      else if b0 < 0xC2 \<or> 0xF4 < b0 then (RuneError, 1)
      else if b0 < 0xE0 then
        (case cs of
           c1 # _ \<Rightarrow>
             if in_range 0x80 0xBF c1
             then ((b0 mod 32) * 64 + of_char c1 mod 64, 2)
             else (RuneError, 1)
         | _ \<Rightarrow> (RuneError, 1))
      else if b0 < 0xF0 then
        (case cs of
           c1 # c2 # _ \<Rightarrow>
             if in_range (if b0 = 0xE0 then 0xA0 else 0x80) (if b0 = 0xED then 0x9F else 0xBF) c1
                \<and> in_range 0x80 0xBF c2
             then ((b0 mod 16) * 4096 + (of_char c1 mod 64) * 64 + of_char c2 mod 64, 3)
             else (RuneError, 1)
         | _ \<Rightarrow> (RuneError, 1))
      else
        (case cs of
           c1 # c2 # c3 # _ \<Rightarrow>
             if in_range (if b0 = 0xF0 then 0x90 else 0x80) (if b0 = 0xF4 then 0x8F else 0xBF) c1
                \<and> in_range 0x80 0xBF c2 \<and> in_range 0x80 0xBF c3
             then ((b0 mod 8) * 262144 + (of_char c1 mod 64) * 4096
                   + (of_char c2 mod 64) * 64 + of_char c3 mod 64, 4)
             else (RuneError, 1)
         | _ \<Rightarrow> (RuneError, 1)))"

text \<open>The conversion \<^verbatim>\<open>[]rune(s)\<close>.\<close>

function runes_of :: "string \<Rightarrow> rune list" where
  "runes_of s =
     (if s = [] then []
      else fst (DecodeRune s) # runes_of (drop (snd (DecodeRune s)) s))"
  by pat_completeness auto
termination
proof (relation "measure length")
  fix s :: string
  assume "s \<noteq> []"
  then have "0 < snd (DecodeRune s)" "0 < length s"
    by (cases s; auto simp: Let_def split: list.splits)+
  then show "(drop (snd (DecodeRune s)) s, s) \<in> measure length"
    by simp
qed simp

declare runes_of.simps [simp del]

text \<open>
  \<^verbatim>\<open>utf8.AppendRune\<close>, which \<^verbatim>\<open>strings.Builder.WriteRune\<close> and the conversion
  \<^verbatim>\<open>string([]rune)\<close> use: surrogates and values beyond \<^verbatim>\<open>MaxRune\<close> are written as
  \<^verbatim>\<open>RuneError\<close>.
\<close>

definition encode3 :: "rune \<Rightarrow> string" where
  "encode3 r = [char_of (0xE0 + r div 4096), char_of (0x80 + (r div 64) mod 64),
                char_of (0x80 + r mod 64)]"

definition encodeRune :: "rune \<Rightarrow> string" where
  "encodeRune r =
     (if r \<le> 0x7F then [char_of r]
      else if r \<le> 0x7FF then [char_of (0xC0 + r div 64), char_of (0x80 + r mod 64)]
      else if 0x10FFFF < r \<or> (0xD800 \<le> r \<and> r \<le> 0xDFFF) then encode3 RuneError
      else if r \<le> 0xFFFF then encode3 r
      else [char_of (0xF0 + r div 262144), char_of (0x80 + (r div 4096) mod 64),
            char_of (0x80 + (r div 64) mod 64), char_of (0x80 + r mod 64)])"

definition string_of_runes :: "rune list \<Rightarrow> string" where
  "string_of_runes rs = concat (map encodeRune rs)"

text \<open>
  \<^verbatim>\<open>unicode.IsDigit\<close>: below \<^verbatim>\<open>MaxLatin1\<close> the ASCII digits; beyond, a lookup in the
  table of the category Nd, which depends on the Unicode version of the Go release and
  is a parameter here.
\<close>

definition IsDigit :: "(rune \<Rightarrow> bool) \<Rightarrow> rune \<Rightarrow> bool" where
  "IsDigit Nd r = (if r \<le> 0xFF then 0x30 \<le> r \<and> r \<le> 0x39 else Nd r)"

text \<open>A table with no entry, for running the parser on ASCII inputs.\<close>

definition no_Nd :: "rune \<Rightarrow> bool" where
  "no_Nd r = False"

text \<open>\<^verbatim>\<open>strings.HasPrefix\<close>.\<close>

definition HasPrefix :: "string \<Rightarrow> string \<Rightarrow> bool" where
  "HasPrefix s pre = (length pre \<le> length s \<and> take (length pre) s = pre)"

text \<open>The verb \<^verbatim>\<open>%d\<close> of \<^verbatim>\<open>fmt\<close>: a decimal numeral, with a sign when negative.\<close>

fun decimal :: "nat \<Rightarrow> string" where
  "decimal n =
     (if n < 10 then [char_of (0x30 + n)]
      else decimal (n div 10) @ [char_of (0x30 + n mod 10)])"

declare decimal.simps [simp del]

definition fmt_d :: "int \<Rightarrow> string" where
  "fmt_d i = (if i < 0 then CHR ''-'' # decimal (nat (- i)) else decimal (nat i))"

text \<open>\<^verbatim>\<open>strings.Split(s, "\n")\<close>: the lines of a text; one more than it has newlines.\<close>

fun split_lines :: "string \<Rightarrow> string list" where
  "split_lines [] = [[]]"
| "split_lines (c # cs) =
     (if c = CHR 0x0A then [] # split_lines cs
      else (c # hd (split_lines cs)) # tl (split_lines cs))"

subsection \<open>The data model\<close>

datatype NodeType =
  NodeUnknown | NodeObject | NodeArray | NodeString | NodeNumber | NodeBoolean | NodeNull

text \<open>
  \<^verbatim>\<open>Children []*Node\<close>: a list of pointers, each a node or \<^verbatim>\<open>nil\<close>. No node is
  shared between two slices, so a pointer is the node itself; the \<^verbatim>\<open>nil\<close> slice and
  the empty slice are both the empty list.
\<close>

datatype Node = Node
  (Type: NodeType)
  (Value: string)
  (Children: "Node option list")
  (StartLine: int)
  (StartCol: int)
  (EndLine: int)
  (EndCol: int)
  (Source: string)

definition set_Value :: "string \<Rightarrow> Node \<Rightarrow> Node" where
  "set_Value v n =
     Node (Type n) v (Children n) (StartLine n) (StartCol n) (EndLine n) (EndCol n) (Source n)"

definition set_Children :: "Node option list \<Rightarrow> Node \<Rightarrow> Node" where
  "set_Children cs n =
     Node (Type n) (Value n) cs (StartLine n) (StartCol n) (EndLine n) (EndCol n) (Source n)"

definition set_End :: "int \<Rightarrow> int \<Rightarrow> Node \<Rightarrow> Node" where
  "set_End l c n =
     Node (Type n) (Value n) (Children n) (StartLine n) (StartCol n) l c (Source n)"

record Parser =
  runes :: "rune list"
  pos :: nat
  line :: int
  col :: int
  length_p :: nat
  source :: string

definition NewParser :: "string \<Rightarrow> Parser" where
  "NewParser input =
     (let r = runes_of input in
      \<lparr>runes = r, pos = 0, line = 1, col = 1, length_p = length r, source = input\<rparr>)"

text \<open>
  The fields of a parser are private and \<^verbatim>\<open>length\<close> is set once, to \<^verbatim>\<open>len(runes)\<close>:
  every read \<^verbatim>\<open>p.runes[p.pos]\<close> is guarded by \<^verbatim>\<open>p.pos < p.length\<close> and is in range.
\<close>

definition wf_parser :: "Parser \<Rightarrow> bool" where
  "wf_parser p = (length_p p = length (runes p))"

text \<open>The literal \<^verbatim>\<open>&Node{Type: t, Source: p.source, StartLine: p.line, StartCol: p.col}\<close>.\<close>

definition new_node :: "NodeType \<Rightarrow> Parser \<Rightarrow> Node" where
  "new_node t p = Node t [] [] (line p) (col p) 0 0 (source p)"

subsection \<open>The cursor\<close>

definition isEOF :: "Parser \<Rightarrow> bool" where
  "isEOF p = (length_p p \<le> pos p)"

definition peekChar :: "Parser \<Rightarrow> rune" where
  "peekChar p = (if length_p p \<le> pos p then 0 else runes p ! pos p)"

definition consumeChar :: "Parser \<Rightarrow> Parser" where
  "consumeChar p =
     (if length_p p \<le> pos p then p
      else
        let ch = runes p ! pos p in
        if ch = 0x0A then p\<lparr>pos := pos p + 1, line := line p + 1, col := 1\<rparr>
        else p\<lparr>pos := pos p + 1, col := col p + 1\<rparr>)"

definition remaining :: "Parser \<Rightarrow> string" where
  "remaining p = (if length_p p \<le> pos p then [] else string_of_runes (drop (pos p) (runes p)))"

function skipWhitespace :: "Parser \<Rightarrow> Parser" where
  "skipWhitespace p =
     (if \<not> isEOF p then
        (let ch = peekChar p in
         if ch = 0x20 \<or> ch = 0x09 \<or> ch = 0x0A \<or> ch = 0x0D
         then skipWhitespace (consumeChar p)
         else p)
      else p)"
  by pat_completeness auto
termination
  by (relation "measure (\<lambda>p. length_p p - pos p)")
     (auto simp: isEOF_def consumeChar_def Let_def)

declare skipWhitespace.simps [simp del]

text \<open>The counted loops \<^verbatim>\<open>for i := 0; i < k; i++ { p.consumeChar() }\<close>.\<close>

fun consume_n :: "nat \<Rightarrow> Parser \<Rightarrow> Parser" where
  "consume_n 0 p = p"
| "consume_n (Suc k) p = consume_n k (consumeChar p)"

subsection \<open>The scalar parsers\<close>

text \<open>
  Each of the parsers below allocates its node first and returns that pointer on every
  path, so its result is a node, not an optional one; only \<^verbatim>\<open>parseValue\<close> returns
  \<^verbatim>\<open>nil\<close>.
\<close>

type_synonym result = "Node \<times> string option"

text \<open>
  \<^verbatim>\<open>parseString\<close>: the loop carries the builder \<open>sb\<close>; the code after the loop is
  the branch of the closing quote.
\<close>

function parseString_loop :: "Node \<Rightarrow> string \<Rightarrow> Parser \<Rightarrow> result \<times> Parser" where
  "parseString_loop n sb p =
     (if isEOF p then
        ((set_End (line p) (col p) (set_Value sb n),
          Some ''unexpected end of input in string''), p)
      else
        let ch = peekChar p in
        if ch = 0x22 then
          (let p = consumeChar p in
           ((set_End (line p) (col p) (set_Value sb n), None), p))
        else if ch = 0x5C then
          (let p = consumeChar p in
           if isEOF p then ((n, Some ''unexpected end of input in string escape''), p)
           else
             let escaped = peekChar p in
             parseString_loop n (sb @ encodeRune escaped) (consumeChar p))
        else parseString_loop n (sb @ encodeRune ch) (consumeChar p))"
  by pat_completeness auto
termination
  by (relation "measure (\<lambda>(n, sb, p). length_p p - pos p)")
     (auto simp: isEOF_def consumeChar_def Let_def)

declare parseString_loop.simps [simp del]

definition parseString :: "Parser \<Rightarrow> result \<times> Parser" where
  "parseString p = parseString_loop (new_node NodeString p) [] (consumeChar p)"

function parseNumber_loop :: "(rune \<Rightarrow> bool) \<Rightarrow> string \<Rightarrow> Parser \<Rightarrow> string \<times> Parser" where
  "parseNumber_loop Nd sb p =
     (if \<not> isEOF p then
        (let ch = peekChar p in
         if ch = 0x2D \<or> ch = 0x2B \<or> ch = 0x2E \<or> IsDigit Nd ch
         then parseNumber_loop Nd (sb @ encodeRune ch) (consumeChar p)
         else (sb, p))
      else (sb, p))"
  by pat_completeness auto
termination
  by (relation "measure (\<lambda>(Nd, sb, p). length_p p - pos p)")
     (auto simp: isEOF_def consumeChar_def Let_def)

declare parseNumber_loop.simps [simp del]

definition parseNumber :: "(rune \<Rightarrow> bool) \<Rightarrow> Parser \<Rightarrow> result \<times> Parser" where
  "parseNumber Nd p =
     (let n = new_node NodeNumber p;
          (sb, p) = parseNumber_loop Nd [] p
      in ((set_End (line p) (col p) (set_Value sb n), None), p))"

definition parseBoolean :: "Parser \<Rightarrow> result \<times> Parser" where
  "parseBoolean p =
     (let n = new_node NodeBoolean p in
      if HasPrefix (remaining p) ''true'' then
        (let p = consume_n 4 p in
         ((set_End (line p) (col p) (set_Value ''true'' n), None), p))
      else if HasPrefix (remaining p) ''false'' then
        (let p = consume_n 5 p in
         ((set_End (line p) (col p) (set_Value ''false'' n), None), p))
      else
        ((n, Some (''invalid boolean at line '' @ fmt_d (line p) @ '' col ''
                        @ fmt_d (col p))), p))"

definition parseNull :: "Parser \<Rightarrow> result \<times> Parser" where
  "parseNull p =
     (let n = new_node NodeNull p in
      if HasPrefix (remaining p) ''null'' then
        (let p = consume_n 4 p in
         ((set_End (line p) (col p) (set_Value ''null'' n), None), p))
      else
        ((n, Some (''invalid null at line '' @ fmt_d (line p) @ '' col ''
                        @ fmt_d (col p))), p))"

subsection \<open>The recursive parsers\<close>

text \<open>
  \<^verbatim>\<open>parseValue\<close>, \<^verbatim>\<open>parseObject\<close> and \<^verbatim>\<open>parseArray\<close> call each other, and the
  loops of the latter two continue from the state that the nested call leaves. The fuel
  \<open>k\<close> decreases at every call of \<^verbatim>\<open>parseValue\<close> and at every iteration of a loop.
\<close>

fun parseValue :: "(rune \<Rightarrow> bool) \<Rightarrow> nat \<Rightarrow> Parser \<Rightarrow> ((Node option \<times> string option) \<times> Parser) option"
and parseObject :: "(rune \<Rightarrow> bool) \<Rightarrow> nat \<Rightarrow> Parser \<Rightarrow> (result \<times> Parser) option"
and parseObject_loop :: "(rune \<Rightarrow> bool) \<Rightarrow> nat \<Rightarrow> Node \<Rightarrow> Parser \<Rightarrow> (result \<times> Parser) option"
and parseArray :: "(rune \<Rightarrow> bool) \<Rightarrow> nat \<Rightarrow> Parser \<Rightarrow> (result \<times> Parser) option"
and parseArray_loop :: "(rune \<Rightarrow> bool) \<Rightarrow> nat \<Rightarrow> Node \<Rightarrow> Parser \<Rightarrow> (result \<times> Parser) option"
where
  "parseValue Nd 0 p = None"
| "parseValue Nd (Suc k) p =
     (let p = skipWhitespace p in
      if isEOF p then Some ((None, Some ''unexpected end of input''), p)
      else
        let ch = peekChar p in
        if ch = 0x7B then
          (case parseObject Nd k p of
             None \<Rightarrow> None
           | Some ((n, err), p) \<Rightarrow> Some ((Some n, err), p))
        else if ch = 0x5B then
          (case parseArray Nd k p of
             None \<Rightarrow> None
           | Some ((n, err), p) \<Rightarrow> Some ((Some n, err), p))
        else if ch = 0x22 then
          (case parseString p of ((n, err), p) \<Rightarrow> Some ((Some n, err), p))
        else if ch = 0x74 \<or> ch = 0x66 then
          (case parseBoolean p of ((n, err), p) \<Rightarrow> Some ((Some n, err), p))
        else if ch = 0x6E then
          (case parseNull p of ((n, err), p) \<Rightarrow> Some ((Some n, err), p))
        else
          (case parseNumber Nd p of ((n, err), p) \<Rightarrow> Some ((Some n, err), p)))"
| "parseObject Nd k p =
     (let n = new_node NodeObject p;
          p = consumeChar p;
          p = skipWhitespace p;
          n = set_Children [] n
      in
        if peekChar p = 0x7D then
          (let p = consumeChar p in Some ((set_End (line p) (col p) n, None), p))
        else parseObject_loop Nd k n p)"
| "parseObject_loop Nd 0 n p = None"
| "parseObject_loop Nd (Suc k) n p =
     (let p = skipWhitespace p in
      if peekChar p \<noteq> 0x22 then
        Some ((n, Some (''expected string key at line '' @ fmt_d (line p) @ '' col ''
                        @ fmt_d (col p))), p)
      else
        case parseString p of ((keyNode, err), p) \<Rightarrow>
        if err \<noteq> None then Some ((n, err), p)
        else
          let p = skipWhitespace p in
          if peekChar p \<noteq> 0x3A then
            Some ((n, Some (''expected ':' after object key at line '' @ fmt_d (line p)
                            @ '' col '' @ fmt_d (col p))), p)
          else
            let p = consumeChar p in
            case parseValue Nd k p of
              None \<Rightarrow> None
            | Some ((valueNode, err), p) \<Rightarrow>
                if err \<noteq> None then Some ((n, err), p)
                else
                  let keyNode = set_Children [valueNode] keyNode;
                      n = set_Children (Children n @ [Some keyNode]) n;
                      p = skipWhitespace p
                  in
                    if peekChar p = 0x7D then
                      (let p = consumeChar p in Some ((set_End (line p) (col p) n, None), p))
                    else if peekChar p \<noteq> 0x2C then
                      Some ((n, Some (''expected ',' or '}' in object at line ''
                                      @ fmt_d (line p) @ '' col '' @ fmt_d (col p))), p)
                    else parseObject_loop Nd k n (consumeChar p))"
| "parseArray Nd k p =
     (let n = new_node NodeArray p;
          p = consumeChar p;
          p = skipWhitespace p;
          n = set_Children [] n
      in
        if peekChar p = 0x5D then
          (let p = consumeChar p in Some ((set_End (line p) (col p) n, None), p))
        else parseArray_loop Nd k n p)"
| "parseArray_loop Nd 0 n p = None"
| "parseArray_loop Nd (Suc k) n p =
     (case parseValue Nd k p of
        None \<Rightarrow> None
      | Some ((valueNode, err), p) \<Rightarrow>
          if err \<noteq> None then Some ((n, err), p)
          else
            let n = set_Children (Children n @ [valueNode]) n;
                p = skipWhitespace p
            in
              if peekChar p = 0x5D then
                (let p = consumeChar p in Some ((set_End (line p) (col p) n, None), p))
              else if peekChar p \<noteq> 0x2C then
                Some ((n, Some (''expected ',' or ']' in array at line ''
                                @ fmt_d (line p) @ '' col '' @ fmt_d (col p))), p)
              else parseArray_loop Nd k n (skipWhitespace (consumeChar p)))"

text \<open>
  \<^verbatim>\<open>Parse\<close>: what follows the value, after trailing whitespace, is ignored.
\<close>

definition Parse :: "(rune \<Rightarrow> bool) \<Rightarrow> nat \<Rightarrow> Parser \<Rightarrow> ((Node option \<times> string option) \<times> Parser) option" where
  "Parse Nd k p =
     (case parseValue Nd k p of
        None \<Rightarrow> None
      | Some ((n, err), p) \<Rightarrow>
          if err \<noteq> None then Some ((n, err), p)
          else Some ((n, None), skipWhitespace p))"

text \<open>
  The fuel that \<^verbatim>\<open>Parse\<close> needs on a parser: two units for every rune that is left,
  and one.
\<close>

definition fuel_of :: "Parser \<Rightarrow> nat" where
  "fuel_of p = 2 * (length_p p - pos p) + 1"

subsection \<open>The debug context\<close>

text \<open>The value of a 64-bit \<^verbatim>\<open>int\<close> after an addition or a subtraction.\<close>

definition int64 :: "int \<Rightarrow> int" where
  "int64 i = signed_take_bit 63 i"

text \<open>
  One caret line of \<^verbatim>\<open>DebugContext\<close>: written when the line is the one sought and the
  column lies within it.
\<close>

definition caret :: "int \<Rightarrow> int \<Rightarrow> int \<Rightarrow> string \<Rightarrow> string \<Rightarrow> string" where
  "caret lineNum nodeLine caretPos l label =
     (if lineNum = nodeLine \<and> caretPos > 0 \<and> caretPos \<le> int (length l)
      then replicate (nat caretPos) CHR '' '' @ label @ [CHR 0x0A]
      else [])"

text \<open>
  The loop of \<^verbatim>\<open>DebugContext\<close> over the line indices \<open>i\<close> up to \<open>e\<close>, with the
  builder \<open>b\<close>. The read \<^verbatim>\<open>sourceLines[i]\<close> panics out of range: the result \<open>None\<close>.
  Past that read \<open>i\<close> is less than the number of lines, so \<open>i + 1\<close> does not wrap.
\<close>

function DebugContext_loop :: "Node \<Rightarrow> string list \<Rightarrow> int \<Rightarrow> int \<Rightarrow> string \<Rightarrow> string option" where
  "DebugContext_loop n sourceLines e i b =
     (if i \<le> e then
        (if i < 0 \<or> int (length sourceLines) \<le> i then None
         else
           let lineNum = i + 1;
               l = sourceLines ! nat i;
               b = b @ fmt_d lineNum @ '': '' @ l @ [CHR 0x0A];
               b = b @ caret lineNum (StartLine n) (StartCol n) l ''^ start'';
               b = b @ caret lineNum (EndLine n) (EndCol n) l ''^ end''
           in DebugContext_loop n sourceLines e (i + 1) b)
      else Some b)"
  by pat_completeness auto
termination
  by (relation "measure (\<lambda>(n, sourceLines, e, i, b). nat (e + 1 - i))") auto

declare DebugContext_loop.simps [simp del]

definition DebugContext :: "Node \<Rightarrow> int \<Rightarrow> int \<Rightarrow> string option" where
  "DebugContext n linesBefore linesAfter =
     (let sourceLines = split_lines (Source n);
          start = int64 (int64 (StartLine n - 1) - linesBefore);
          start = (if start < 0 then 0 else start);
          e = int64 (int64 (EndLine n - 1) + linesAfter);
          e = (if int (length sourceLines) \<le> e then int (length sourceLines) - 1 else e)
      in DebugContext_loop n sourceLines e start [])"

subsection \<open>Notions the properties are stated with\<close>

text \<open>The runes that \<^verbatim>\<open>parseNumber\<close> accumulates: a sign, a point or a decimal digit.\<close>

definition number_rune :: "(rune \<Rightarrow> bool) \<Rightarrow> rune \<Rightarrow> bool" where
  "number_rune Nd ch = (ch \<in> {0x2D, 0x2B, 0x2E} \<or> IsDigit Nd ch)"

text \<open>Positions (line, column) in reading order.\<close>

definition pos_le :: "int \<times> int \<Rightarrow> int \<times> int \<Rightarrow> bool" where
  "pos_le a b = (fst a < fst b \<or> (fst a = fst b \<and> snd a \<le> snd b))"

definition pos_less :: "int \<times> int \<Rightarrow> int \<times> int \<Rightarrow> bool" where
  "pos_less a b = (fst a < fst b \<or> (fst a = fst b \<and> snd a < snd b))"

definition cursor :: "Parser \<Rightarrow> int \<times> int" where
  "cursor p = (line p, col p)"

definition start_of :: "Node \<Rightarrow> int \<times> int" where
  "start_of n = (StartLine n, StartCol n)"

definition end_of :: "Node \<Rightarrow> int \<times> int" where
  "end_of n = (EndLine n, EndCol n)"

text \<open>The invariant of a span, as the specification words it.\<close>

definition span_ok :: "Node \<Rightarrow> bool" where
  "span_ok n = (StartLine n \<le> EndLine n \<and> (StartLine n = EndLine n \<longrightarrow> StartCol n \<le> EndCol n))"

text \<open>A parser state \<open>p'\<close> reached from \<open>p\<close> by consuming runes.\<close>

definition advances :: "Parser \<Rightarrow> Parser \<Rightarrow> bool" where
  "advances p p' =
     (runes p' = runes p \<and> length_p p' = length_p p \<and> source p' = source p
      \<and> pos p \<le> pos p' \<and> pos_le (cursor p) (cursor p'))"

text \<open>All the nodes of a tree, the root first.\<close>

fun nodes :: "Node \<Rightarrow> Node list" where
  "nodes (Node t v cs sl sc el ec src) =
     Node t v cs sl sc el ec src
     # concat (map (\<lambda>c. case c of None \<Rightarrow> [] | Some m \<Rightarrow> nodes m) cs)"

definition nodes_opt :: "Node option \<Rightarrow> Node list" where
  "nodes_opt c = (case c of None \<Rightarrow> [] | Some m \<Rightarrow> nodes m)"

text \<open>
  What \<^verbatim>\<open>parseString\<close> makes of the runes after the opening quote: how the scan ends,
  the runes that reach the builder, and the number of runes consumed. After a backslash
  the next rune is taken as it is and the backslash itself is dropped.
\<close>

datatype string_end = Closed | EndOfInput | EndInEscape

fun scan_string :: "rune list \<Rightarrow> string_end \<times> rune list \<times> nat" where
  "scan_string [] = (EndOfInput, [], 0)"
| "scan_string [c] =
     (if c = 0x22 then (Closed, [], 1)
      else if c = 0x5C then (EndInEscape, [], 1)
      else (EndOfInput, [c], 1))"
| "scan_string (c # e # cs) =
     (if c = 0x22 then (Closed, [], 1)
      else if c = 0x5C then
        (case scan_string cs of (r, lit, w) \<Rightarrow> (r, e # lit, w + 2))
      else
        (case scan_string (e # cs) of (r, lit, w) \<Rightarrow> (r, c # lit, w + 1)))"

definition plain_rune :: "rune \<Rightarrow> bool" where
  "plain_rune c = (c \<noteq> 0x22 \<and> c \<noteq> 0x5C)"

text \<open>
  A node that \<^verbatim>\<open>parseString\<close> returned without an error, but for its children: its
  end is the cursor that \<^verbatim>\<open>parseString\<close> left, just after the closing quote.
\<close>

definition key_string :: "Node \<Rightarrow> bool" where
  "key_string k =
     (\<exists>q. wf_parser q \<and> fst (parseString q) = (set_Children [] k, None)
          \<and> end_of k = cursor (snd (parseString q)))"

text \<open>
  A child of an Object node as \<^verbatim>\<open>parseObject\<close> builds it: a String node (the key) with
  exactly one child (the value), the key ending where its own string ends, before the
  value starts.
\<close>

definition key_ok :: "Node option \<Rightarrow> bool" where
  "key_ok c =
     (case c of
        None \<Rightarrow> False
      | Some k \<Rightarrow>
          Type k = NodeString \<and> key_string k \<and>
          (case Children k of
             [Some v] \<Rightarrow> pos_less (end_of k) (start_of v) \<and> pos_le (start_of v) (end_of v)
           | _ \<Rightarrow> False))"

text \<open>One span encloses another.\<close>

definition encloses :: "Node \<Rightarrow> Node \<Rightarrow> bool" where
  "encloses a b = (pos_le (start_of a) (start_of b) \<and> pos_le (end_of b) (end_of a))"

text \<open>
  \<^verbatim>\<open>NewParser(input).Parse()\<close>, with the fuel that the input needs.
\<close>

definition ParseInput :: "(rune \<Rightarrow> bool) \<Rightarrow> string \<Rightarrow> ((Node option \<times> string option) \<times> Parser) option" where
  "ParseInput Nd input = Parse Nd (fuel_of (NewParser input)) (NewParser input)"

text \<open>A node that was returned without an error, and a tree of such nodes.\<close>

definition good_node :: "Node \<Rightarrow> bool" where
  "good_node m =
     (span_ok m \<and> list_all (\<lambda>c. c \<noteq> None) (Children m)
      \<and> (Type m = NodeObject \<longrightarrow> list_all key_ok (Children m)))"

definition good_tree :: "Node \<Rightarrow> bool" where
  "good_tree n = list_all good_node (nodes n)"

text \<open>
  A node that was returned with an error: its children are complete, its own end may
  have been left at the zero value.
\<close>

definition partial_tree :: "Node \<Rightarrow> bool" where
  "partial_tree n =
     (list_all (\<lambda>c. c \<noteq> None \<and> list_all good_node (nodes_opt c)) (Children n)
      \<and> (Type n = NodeObject \<longrightarrow> list_all key_ok (Children n))
      \<and> (span_ok n \<or> end_of n = (0, 0)))"

text \<open>What a call of a parser guarantees, from the state \<open>p\<close> in which it starts.\<close>

definition node_post :: "Parser \<Rightarrow> result \<times> Parser \<Rightarrow> bool" where
  "node_post p r =
     (case r of ((n, err), p') \<Rightarrow>
        advances p p' \<and> start_of n = cursor p \<and>
        (if err = None then good_tree n \<and> end_of n = cursor p' else partial_tree n))"

definition value_post :: "Parser \<Rightarrow> (Node option \<times> string option) \<times> Parser \<Rightarrow> bool" where
  "value_post p r =
     (case r of ((vo, err), p') \<Rightarrow>
        advances p p' \<and>
        (case vo of
           None \<Rightarrow> err \<noteq> None
         | Some n \<Rightarrow>
             pos_le (cursor p) (start_of n) \<and>
             (if err = None then good_tree n \<and> end_of n = cursor p' else partial_tree n)))"

definition loop_pre :: "Node \<Rightarrow> Parser \<Rightarrow> bool" where
  "loop_pre n p = (partial_tree n \<and> end_of n = (0, 0) \<and> pos_le (start_of n) (cursor p))"

definition loop_post :: "Node \<Rightarrow> Parser \<Rightarrow> result \<times> Parser \<Rightarrow> bool" where
  "loop_post n p r =
     (case r of ((m, err), p') \<Rightarrow>
        advances p p' \<and> start_of m = start_of n \<and> Type m = Type n \<and>
        (if err = None then good_tree m \<and> end_of m = cursor p' else partial_tree m))"

text \<open>
  Two trees with the same kinds, literals, spans and numbers of children, at every level.
\<close>

fun structurally_equal :: "Node \<Rightarrow> Node \<Rightarrow> bool" where
  "structurally_equal (Node t v cs sl sc el ec src) (Node t' v' cs' sl' sc' el' ec' src') =
     (t = t' \<and> v = v' \<and> sl = sl' \<and> sc = sc' \<and> el = el' \<and> ec = ec'
      \<and> length cs = length cs'
      \<and> list_all2 (rel_option structurally_equal) cs cs')"

text \<open>
  What \<^verbatim>\<open>DebugContext\<close> writes for the line of index \<open>i\<close>: the numbered line, then
  the caret lines that belong to it.
\<close>

definition render_line :: "Node \<Rightarrow> string list \<Rightarrow> int \<Rightarrow> string" where
  "render_line n sourceLines i =
     fmt_d (i + 1) @ '': '' @ sourceLines ! nat i @ [CHR 0x0A]
     @ caret (i + 1) (StartLine n) (StartCol n) (sourceLines ! nat i) ''^ start''
     @ caret (i + 1) (EndLine n) (EndCol n) (sourceLines ! nat i) ''^ end''"

text \<open>The window of line indices that the specification gives, on unbounded integers.\<close>

definition window :: "Node \<Rightarrow> int \<Rightarrow> int \<Rightarrow> int list" where
  "window n linesBefore linesAfter =
     [max 0 (StartLine n - 1 - linesBefore) ..
      min (int (length (split_lines (Source n))) - 1) (EndLine n - 1 + linesAfter)]"

section \<open>Properties\<close>

subsection \<open>The cursor only moves forward\<close>

lemma pos_le_refl [simp]: "pos_le a a"
  by (simp add: pos_le_def)

lemma pos_le_trans: "pos_le a b \<Longrightarrow> pos_le b c \<Longrightarrow> pos_le a c"
  by (auto simp: pos_le_def)

lemma pos_less_le_trans: "pos_less a b \<Longrightarrow> pos_le b c \<Longrightarrow> pos_less a c"
  by (auto simp: pos_le_def pos_less_def)

lemma pos_le_less_trans: "pos_le a b \<Longrightarrow> pos_less b c \<Longrightarrow> pos_less a c"
  by (auto simp: pos_le_def pos_less_def)

lemma advances_refl [simp]: "advances p p"
  by (simp add: advances_def)

lemma advances_trans: "advances p q \<Longrightarrow> advances q r \<Longrightarrow> advances p r"
  by (auto simp: advances_def intro: pos_le_trans)

lemma advances_consumeChar [simp]: "advances p (consumeChar p)"
  by (simp add: advances_def consumeChar_def Let_def pos_le_def cursor_def)

lemma consumeChar_not_EOF:
  "\<not> isEOF p \<Longrightarrow> pos (consumeChar p) = Suc (pos p) \<and> pos_less (cursor p) (cursor (consumeChar p))"
  by (simp add: isEOF_def consumeChar_def Let_def pos_less_def cursor_def)

lemma consumeChar_EOF: "isEOF p \<Longrightarrow> consumeChar p = p"
  by (simp add: isEOF_def consumeChar_def)

lemma advances_skipWhitespace [simp]: "advances p (skipWhitespace p)"
proof (induction p rule: skipWhitespace.induct)
  case (1 p)
  show ?case
  proof (cases "\<not> isEOF p \<and> (peekChar p = 0x20 \<or> peekChar p = 0x09 \<or> peekChar p = 0x0A \<or> peekChar p = 0x0D)")
    case True
    then have "skipWhitespace p = skipWhitespace (consumeChar p)"
      by (subst skipWhitespace.simps) (simp add: Let_def)
    moreover have "advances (consumeChar p) (skipWhitespace (consumeChar p))"
      using True 1 by auto
    ultimately show ?thesis
      using advances_trans [OF advances_consumeChar] by simp
  next
    case False
    then have "skipWhitespace p = p"
      by (subst skipWhitespace.simps) (auto simp: Let_def)
    then show ?thesis by simp
  qed
qed

lemma advances_consume_n [simp]: "advances p (consume_n k p)"
  by (induction k arbitrary: p) (auto intro: advances_trans [OF advances_consumeChar])

lemma wf_parser_advances: "advances p p' \<Longrightarrow> wf_parser p \<Longrightarrow> wf_parser p'"
  by (simp add: advances_def wf_parser_def)

lemma peekChar_not_EOF:
  "wf_parser p \<Longrightarrow> \<not> isEOF p \<Longrightarrow> drop (pos p) (runes p) = peekChar p # drop (pos (consumeChar p)) (runes p)"
proof -
  assume a: "wf_parser p" "\<not> isEOF p"
  then have lt: "pos p < length (runes p)"
    by (simp add: wf_parser_def isEOF_def)
  have "pos (consumeChar p) = Suc (pos p)" "peekChar p = runes p ! pos p"
    using a by (simp_all add: wf_parser_def isEOF_def peekChar_def consumeChar_def Let_def)
  then show ?thesis
    using Cons_nth_drop_Suc [OF lt] by simp
qed

lemma drop_EOF: "wf_parser p \<Longrightarrow> isEOF p \<Longrightarrow> drop (pos p) (runes p) = []"
  by (simp add: wf_parser_def isEOF_def)

lemma runes_consumeChar [simp]: "runes (consumeChar p) = runes p"
  by (simp add: consumeChar_def Let_def)

lemma wf_consumeChar [simp]: "wf_parser (consumeChar p) = wf_parser p"
  by (simp add: consumeChar_def Let_def wf_parser_def)

subsection \<open>\<^verbatim>\<open>parseNumber\<close>\<close>

lemma string_of_runes_Cons: "string_of_runes (r # rs) = encodeRune r @ string_of_runes rs"
  by (simp add: string_of_runes_def)

lemma string_of_runes_Nil [simp]: "string_of_runes [] = []"
  by (simp add: string_of_runes_def)

lemma parseNumber_loop_takeWhile:
  "wf_parser p \<Longrightarrow>
   parseNumber_loop Nd sb p =
     (sb @ string_of_runes (takeWhile (number_rune Nd) (drop (pos p) (runes p))),
      consume_n (length (takeWhile (number_rune Nd) (drop (pos p) (runes p)))) p)"
proof (induction Nd sb p rule: parseNumber_loop.induct)
  case (1 Nd sb p)
  show ?case
  proof (cases "isEOF p")
    case True
    then show ?thesis
      using 1(2) by (subst parseNumber_loop.simps) (simp add: drop_EOF)
  next
    case False
    note d = peekChar_not_EOF [OF 1(2) False]
    show ?thesis
    proof (cases "number_rune Nd (peekChar p)")
      case True
      then have c: "peekChar p = 0x2D \<or> peekChar p = 0x2B \<or> peekChar p = 0x2E \<or> IsDigit Nd (peekChar p)"
        by (simp add: number_rune_def)
      have "parseNumber_loop Nd sb p = parseNumber_loop Nd (sb @ encodeRune (peekChar p)) (consumeChar p)"
        using False c by (subst parseNumber_loop.simps) (simp add: Let_def)
      also have "\<dots> = ((sb @ encodeRune (peekChar p)) @ string_of_runes (takeWhile (number_rune Nd) (drop (pos (consumeChar p)) (runes (consumeChar p)))),
         consume_n (length (takeWhile (number_rune Nd) (drop (pos (consumeChar p)) (runes (consumeChar p))))) (consumeChar p))"
        using 1(1) [OF False refl c] 1(2) by simp
      finally show ?thesis
        using True by (simp add: d string_of_runes_Cons)
    next
      case nr: False
      then have c: "\<not> (peekChar p = 0x2D \<or> peekChar p = 0x2B \<or> peekChar p = 0x2E \<or> IsDigit Nd (peekChar p))"
        by (simp add: number_rune_def)
      have "parseNumber_loop Nd sb p = (sb, p)"
        using False c by (subst parseNumber_loop.simps) (simp add: Let_def)
      then show ?thesis
        using nr by (simp add: d)
    qed
  qed
qed

lemma pos_consume_n:
  "wf_parser p \<Longrightarrow> k \<le> length (drop (pos p) (runes p)) \<Longrightarrow> pos (consume_n k p) = pos p + k"
proof (induction k arbitrary: p)
  case 0
  then show ?case by simp
next
  case (Suc k)
  then have ne: "\<not> isEOF p" by (auto simp: isEOF_def wf_parser_def)
  have "pos (consume_n k (consumeChar p)) = pos (consumeChar p) + k"
    using Suc.prems ne by (intro Suc.IH) (auto simp: consumeChar_not_EOF)
  then show ?case using ne by (simp add: consumeChar_not_EOF)
qed


text \<open>
  Claim C5. From every well-formed cursor state, \<^verbatim>\<open>parseNumber\<close> consumes exactly the
  longest prefix \<open>lit\<close> of the remaining runes that consists of signs, points and
  decimal digits: it returns the Number node whose literal is that prefix (possibly
  empty), with no error, in the state reached by consuming \<open>length lit\<close> runes; the
  remaining input is \<open>lit\<close> followed by what is left, and what is left is empty or starts
  with a rune outside the set.
\<close>

theorem parseNumber_maximal_prefix:
  assumes "wf_parser p"
  shows "let lit = takeWhile (number_rune Nd) (drop (pos p) (runes p));
             p' = consume_n (length lit) p
         in parseNumber Nd p =
              ((set_End (line p') (col p') (set_Value (string_of_runes lit)
                  (new_node NodeNumber p)), None), p')
            \<and> runes p' = runes p
            \<and> pos p' = pos p + length lit
            \<and> drop (pos p) (runes p) = lit @ drop (pos p') (runes p)
            \<and> (isEOF p' \<or> \<not> number_rune Nd (peekChar p'))"
proof -
  define xs where "xs = drop (pos p) (runes p)"
  define lit where "lit = takeWhile (number_rune Nd) xs"
  define p' where "p' = consume_n (length lit) p"
  have adv: "advances p p'"
    by (simp add: p'_def)
  have wf': "wf_parser p'"
    using adv assms by (rule wf_parser_advances)
  have r: "runes p' = runes p"
    using adv by (simp add: advances_def)
  have "length lit \<le> length xs"
    by (simp add: lit_def length_takeWhile_le)
  then have ps: "pos p' = pos p + length lit"
    unfolding p'_def xs_def using assms by (rule pos_consume_n [rotated])
  have dw: "drop (pos p') (runes p) = dropWhile (number_rune Nd) xs"
    by (simp add: ps xs_def lit_def dropWhile_eq_drop add.commute)
  have split: "xs = lit @ drop (pos p') (runes p)"
    by (simp add: dw lit_def)
  have stop: "isEOF p' \<or> \<not> number_rune Nd (peekChar p')"
  proof (cases "isEOF p'")
    case False
    from peekChar_not_EOF [OF wf' False]
    have "dropWhile (number_rune Nd) xs = peekChar p' # drop (pos (consumeChar p')) (runes p')"
      by (simp add: r dw)
    then have "hd (dropWhile (number_rune Nd) xs) = peekChar p'" "dropWhile (number_rune Nd) xs \<noteq> []"
      by simp_all
    then show ?thesis
      using hd_dropWhile [of "number_rune Nd" xs] by auto
  qed simp
  have "parseNumber Nd p =
          ((set_End (line p') (col p') (set_Value (string_of_runes lit)
              (new_node NodeNumber p)), None), p')"
    by (simp add: parseNumber_def parseNumber_loop_takeWhile [OF assms] Let_def
        p'_def lit_def xs_def)
  then show ?thesis
    using r ps split stop by (simp add: Let_def p'_def lit_def xs_def)
qed

theorem parseNumber_maximal_prefix_witness:
  "wf_parser (NewParser ''42.5, 7'')
   \<and> parseNumber no_Nd (NewParser ''42.5, 7'') =
       ((Node NodeNumber ''42.5'' [] 1 1 1 5 ''42.5, 7'', None),
        consume_n 4 (NewParser ''42.5, 7''))
   \<and> pos (consume_n 4 (NewParser ''42.5, 7'')) = 4"
proof -
  have w: "wf_parser (NewParser ''42.5, 7'')"
    by (simp add: wf_parser_def NewParser_def Let_def)
  have r: "runes (NewParser ''42.5, 7'') = [0x34, 0x32, 0x2E, 0x35, 0x2C, 0x20, 0x37]"
    by code_simp
  have p0: "pos (NewParser ''42.5, 7'') = 0"
    by (simp add: NewParser_def Let_def)
  have lit: "takeWhile (number_rune no_Nd) (drop (pos (NewParser ''42.5, 7''))
               (runes (NewParser ''42.5, 7''))) = [0x34, 0x32, 0x2E, 0x35]"
    by (simp add: r p0 number_rune_def IsDigit_def)
  have len: "length [0x34, 0x32, 0x2E, 0x35 :: nat] = 4"
    by simp
  have s: "string_of_runes [0x34, 0x32, 0x2E, 0x35] = ''42.5''"
    by code_simp
  have c: "consume_n 4 (NewParser ''42.5, 7'') =
           \<lparr>runes = [0x34, 0x32, 0x2E, 0x35, 0x2C, 0x20, 0x37], pos = 4, line = 1, col = 5,
            length_p = 7, source = ''42.5, 7''\<rparr>"
    by code_simp
  have n: "new_node NodeNumber (NewParser ''42.5, 7'') = Node NodeNumber [] [] 1 1 0 0 ''42.5, 7''"
    by (simp add: new_node_def NewParser_def Let_def)
  show ?thesis
    using parseNumber_maximal_prefix [OF w, of no_Nd]
    unfolding Let_def lit len s n
    by (simp add: w c set_End_def set_Value_def)
qed

subsection \<open>\<^verbatim>\<open>parseString\<close>\<close>

lemma length_p_consumeChar [simp]: "length_p (consumeChar p) = length_p p"
  by (simp add: consumeChar_def Let_def)

lemma source_consumeChar [simp]: "source (consumeChar p) = source p"
  by (simp add: consumeChar_def Let_def)

lemma parseString_loop_scan:
  assumes "wf_parser p" "xs = drop (pos p) (runes p)"
  shows "parseString_loop n sb p =
     (case scan_string xs of (r, lit, w) \<Rightarrow>
        let p' = consume_n w p;
            m = set_End (line p') (col p') (set_Value (sb @ string_of_runes lit) n)
        in case r of
             Closed \<Rightarrow> ((m, None), p')
           | EndOfInput \<Rightarrow> ((m, Some ''unexpected end of input in string''), p')
           | EndInEscape \<Rightarrow> ((n, Some ''unexpected end of input in string escape''), p'))"
  using assms
proof (induction xs arbitrary: p sb rule: scan_string.induct)
  case 1
  then have "isEOF p"
    by (simp add: isEOF_def wf_parser_def)
  then show ?case
    by (subst parseString_loop.simps) simp
next
  case (2 c)
  then have ne: "\<not> isEOF p"
    by (auto simp: isEOF_def wf_parser_def)
  from peekChar_not_EOF [OF 2(1) ne] 2(2)
  have pk: "peekChar p = c" and rest: "drop (pos (consumeChar p)) (runes p) = []"
    by simp_all
  have eof': "isEOF (consumeChar p)"
    using rest 2(1) by (simp add: isEOF_def wf_parser_def)
  have l: "parseString_loop n (sb @ encodeRune c) (consumeChar p) =
      ((set_End (line (consumeChar p)) (col (consumeChar p)) (set_Value (sb @ encodeRune c) n),
        Some ''unexpected end of input in string''), consumeChar p)"
    using eof' by (subst parseString_loop.simps) simp
  show ?case
    using ne pk eof' l
    by (subst parseString_loop.simps) (simp add: Let_def string_of_runes_Cons)
next
  case (3 c e cs)
  then have ne: "\<not> isEOF p"
    by (auto simp: isEOF_def wf_parser_def)
  from peekChar_not_EOF [OF 3(3) ne] 3(4)
  have pk: "peekChar p = c" and rest: "drop (pos (consumeChar p)) (runes (consumeChar p)) = e # cs"
    by simp_all
  have wf1: "wf_parser (consumeChar p)"
    using 3(3) by simp
  have ne1: "\<not> isEOF (consumeChar p)"
    using rest wf1 by (auto simp: isEOF_def wf_parser_def)
  from peekChar_not_EOF [OF wf1 ne1] rest
  have pk1: "peekChar (consumeChar p) = e"
    and rest1: "cs = drop (pos (consumeChar (consumeChar p))) (runes (consumeChar (consumeChar p)))"
    by simp_all
  show ?case
  proof (cases "c = 0x22")
    case True
    then show ?thesis
      using ne pk by (subst parseString_loop.simps) (simp add: Let_def)
  next
    case q: False
    show ?thesis
    proof (cases "c = 0x5C")
      case True
      have "parseString_loop n sb p =
            parseString_loop n (sb @ encodeRune e) (consumeChar (consumeChar p))"
        using ne pk True ne1 pk1 by (subst parseString_loop.simps) (simp add: Let_def)
      also note 3(1) [OF q True _ rest1, of "sb @ encodeRune e"]
      finally show ?thesis
        using True wf1 by (simp add: Let_def string_of_runes_Cons split: prod.splits string_end.splits)
    next
      case False
      have "parseString_loop n sb p = parseString_loop n (sb @ encodeRune c) (consumeChar p)"
        using ne pk q False by (subst parseString_loop.simps) (simp add: Let_def)
      also note 3(2) [OF q False wf1 rest [symmetric], of "sb @ encodeRune c"]
      finally show ?thesis
        using q False by (simp add: Let_def string_of_runes_Cons split: prod.splits string_end.splits)
    qed
  qed
qed


lemma scan_string_Cons:
  "scan_string (c # cs) =
     (if c = 0x22 then (Closed, [], 1)
      else if c = 0x5C then
        (case cs of
           [] \<Rightarrow> (EndInEscape, [], 1)
         | e # cs' \<Rightarrow> (case scan_string cs' of (r, lit, w) \<Rightarrow> (r, e # lit, w + 2)))
      else (case scan_string cs of (r, lit, w) \<Rightarrow> (r, c # lit, w + 1)))"
  by (cases cs) simp_all

lemma scan_string_width_all:
  "scan_string xs = (r, lit, w) \<Longrightarrow> r \<noteq> Closed \<Longrightarrow> w = length xs"
  by (induction xs arbitrary: r lit w rule: scan_string.induct)
     (auto split: if_splits prod.splits)

lemma scan_string_plain_prefix:
  "list_all plain_rune pre \<Longrightarrow>
   scan_string (pre @ cs) =
     (case scan_string cs of (r, lit, w) \<Rightarrow> (r, pre @ lit, length pre + w))"
  by (induction pre) (auto simp: scan_string_Cons plain_rune_def split: prod.splits)

lemma parseString_scan:
  assumes "wf_parser p"
  shows "parseString p =
     (case scan_string (drop (pos (consumeChar p)) (runes p)) of (r, lit, w) \<Rightarrow>
        let p' = consume_n w (consumeChar p);
            m = set_End (line p') (col p') (set_Value (string_of_runes lit)
                  (new_node NodeString p))
        in case r of
             Closed \<Rightarrow> ((m, None), p')
           | EndOfInput \<Rightarrow> ((m, Some ''unexpected end of input in string''), p')
           | EndInEscape \<Rightarrow>
               ((new_node NodeString p, Some ''unexpected end of input in string escape''), p'))"
proof -
  have "wf_parser (consumeChar p)"
    using assms by simp
  from parseString_loop_scan [OF this, of _ "new_node NodeString p" "[]"]
  show ?thesis
    by (simp add: parseString_def)
qed

lemma consume_n_all_EOF:
  assumes "wf_parser p"
  shows "isEOF (consume_n (length (drop (pos p) (runes p))) p)"
proof -
  have "pos (consume_n (length (drop (pos p) (runes p))) p) = pos p + length (drop (pos p) (runes p))"
    using assms by (rule pos_consume_n) simp
  moreover have "length_p (consume_n (length (drop (pos p) (runes p))) p) = length_p p"
    using advances_consume_n [of p] by (simp add: advances_def)
  ultimately show ?thesis
    using assms by (simp add: isEOF_def wf_parser_def)
qed







subsection \<open>Case analysis of the recursive parsers\<close>

lemma parseValue_cases [consumes 1, case_names eof object array string boolean null number]:
  assumes "parseValue Nd (Suc k) p = Some r"
  obtains
    (eof) "isEOF (skipWhitespace p)"
      "r = ((None, Some ''unexpected end of input''), skipWhitespace p)"
  | (object) n err p' where "\<not> isEOF (skipWhitespace p)" "peekChar (skipWhitespace p) = 0x7B"
      "parseObject Nd k (skipWhitespace p) = Some ((n, err), p')" "r = ((Some n, err), p')"
  | (array) n err p' where "\<not> isEOF (skipWhitespace p)" "peekChar (skipWhitespace p) = 0x5B"
      "parseArray Nd k (skipWhitespace p) = Some ((n, err), p')" "r = ((Some n, err), p')"
  | (string) n err p' where "\<not> isEOF (skipWhitespace p)" "peekChar (skipWhitespace p) = 0x22"
      "parseString (skipWhitespace p) = ((n, err), p')" "r = ((Some n, err), p')"
  | (boolean) n err p' where "\<not> isEOF (skipWhitespace p)"
      "peekChar (skipWhitespace p) = 0x74 \<or> peekChar (skipWhitespace p) = 0x66"
      "parseBoolean (skipWhitespace p) = ((n, err), p')" "r = ((Some n, err), p')"
  | (null) n err p' where "\<not> isEOF (skipWhitespace p)" "peekChar (skipWhitespace p) = 0x6E"
      "parseNull (skipWhitespace p) = ((n, err), p')" "r = ((Some n, err), p')"
  | (number) n err p' where "\<not> isEOF (skipWhitespace p)"
      "peekChar (skipWhitespace p) \<notin> {0x7B, 0x5B, 0x22, 0x74, 0x66, 0x6E}"
      "parseNumber Nd (skipWhitespace p) = ((n, err), p')" "r = ((Some n, err), p')"
  using assms
  by (auto simp: Let_def split: if_splits option.splits prod.splits)

lemma parseObject_cases [consumes 1, case_names empty loop]:
  assumes "parseObject Nd k p = Some r"
  obtains
    (empty) "peekChar (skipWhitespace (consumeChar p)) = 0x7D"
      "r = ((set_End (line (consumeChar (skipWhitespace (consumeChar p))))
                     (col (consumeChar (skipWhitespace (consumeChar p))))
                     (set_Children [] (new_node NodeObject p)), None),
            consumeChar (skipWhitespace (consumeChar p)))"
  | (loop) "peekChar (skipWhitespace (consumeChar p)) \<noteq> 0x7D"
      "parseObject_loop Nd k (set_Children [] (new_node NodeObject p))
         (skipWhitespace (consumeChar p)) = Some r"
  using assms
  by (auto simp: Let_def split: if_splits)

lemma parseArray_cases [consumes 1, case_names empty loop]:
  assumes "parseArray Nd k p = Some r"
  obtains
    (empty) "peekChar (skipWhitespace (consumeChar p)) = 0x5D"
      "r = ((set_End (line (consumeChar (skipWhitespace (consumeChar p))))
                     (col (consumeChar (skipWhitespace (consumeChar p))))
                     (set_Children [] (new_node NodeArray p)), None),
            consumeChar (skipWhitespace (consumeChar p)))"
  | (loop) "peekChar (skipWhitespace (consumeChar p)) \<noteq> 0x5D"
      "parseArray_loop Nd k (set_Children [] (new_node NodeArray p))
         (skipWhitespace (consumeChar p)) = Some r"
  using assms
  by (auto simp: Let_def split: if_splits)

lemma parseObject_loop_cases
  [consumes 1, case_names no_key key_error no_colon value_error closed no_separator continue]:
  assumes "parseObject_loop Nd (Suc k) n p = Some r"
  obtains
    (no_key) "peekChar (skipWhitespace p) \<noteq> 0x22"
      "r = ((n, Some (''expected string key at line '' @ fmt_d (line (skipWhitespace p))
                      @ '' col '' @ fmt_d (col (skipWhitespace p)))), skipWhitespace p)"
  | (key_error) keyNode e p2 where "peekChar (skipWhitespace p) = 0x22"
      "parseString (skipWhitespace p) = ((keyNode, Some e), p2)" "r = ((n, Some e), p2)"
  | (no_colon) keyNode p2 where "peekChar (skipWhitespace p) = 0x22"
      "parseString (skipWhitespace p) = ((keyNode, None), p2)"
      "peekChar (skipWhitespace p2) \<noteq> 0x3A"
      "r = ((n, Some (''expected ':' after object key at line ''
                      @ fmt_d (line (skipWhitespace p2)) @ '' col ''
                      @ fmt_d (col (skipWhitespace p2)))), skipWhitespace p2)"
  | (value_error) keyNode p2 valueNode e p5 where "peekChar (skipWhitespace p) = 0x22"
      "parseString (skipWhitespace p) = ((keyNode, None), p2)"
      "peekChar (skipWhitespace p2) = 0x3A"
      "parseValue Nd k (consumeChar (skipWhitespace p2)) = Some ((valueNode, Some e), p5)"
      "r = ((n, Some e), p5)"
  | (closed) keyNode p2 valueNode p5 where "peekChar (skipWhitespace p) = 0x22"
      "parseString (skipWhitespace p) = ((keyNode, None), p2)"
      "peekChar (skipWhitespace p2) = 0x3A"
      "parseValue Nd k (consumeChar (skipWhitespace p2)) = Some ((valueNode, None), p5)"
      "peekChar (skipWhitespace p5) = 0x7D"
      "r = ((set_End (line (consumeChar (skipWhitespace p5))) (col (consumeChar (skipWhitespace p5)))
              (set_Children (Children n @ [Some (set_Children [valueNode] keyNode)]) n), None),
            consumeChar (skipWhitespace p5))"
  | (no_separator) keyNode p2 valueNode p5 where "peekChar (skipWhitespace p) = 0x22"
      "parseString (skipWhitespace p) = ((keyNode, None), p2)"
      "peekChar (skipWhitespace p2) = 0x3A"
      "parseValue Nd k (consumeChar (skipWhitespace p2)) = Some ((valueNode, None), p5)"
      "peekChar (skipWhitespace p5) \<noteq> 0x7D" "peekChar (skipWhitespace p5) \<noteq> 0x2C"
      "r = ((set_Children (Children n @ [Some (set_Children [valueNode] keyNode)]) n,
             Some (''expected ',' or '}' in object at line ''
                   @ fmt_d (line (skipWhitespace p5)) @ '' col ''
                   @ fmt_d (col (skipWhitespace p5)))),
            skipWhitespace p5)"
  | (continue) keyNode p2 valueNode p5 where "peekChar (skipWhitespace p) = 0x22"
      "parseString (skipWhitespace p) = ((keyNode, None), p2)"
      "peekChar (skipWhitespace p2) = 0x3A"
      "parseValue Nd k (consumeChar (skipWhitespace p2)) = Some ((valueNode, None), p5)"
      "peekChar (skipWhitespace p5) = 0x2C"
      "parseObject_loop Nd k (set_Children (Children n @ [Some (set_Children [valueNode] keyNode)]) n)
         (consumeChar (skipWhitespace p5)) = Some r"
  using assms
  by (auto simp: Let_def split: if_splits option.splits prod.splits)

lemma parseArray_loop_cases
  [consumes 1, case_names value_error closed no_separator continue]:
  assumes "parseArray_loop Nd (Suc k) n p = Some r"
  obtains
    (value_error) valueNode e p5 where
      "parseValue Nd k p = Some ((valueNode, Some e), p5)" "r = ((n, Some e), p5)"
  | (closed) valueNode p5 where
      "parseValue Nd k p = Some ((valueNode, None), p5)"
      "peekChar (skipWhitespace p5) = 0x5D"
      "r = ((set_End (line (consumeChar (skipWhitespace p5))) (col (consumeChar (skipWhitespace p5)))
              (set_Children (Children n @ [valueNode]) n), None),
            consumeChar (skipWhitespace p5))"
  | (no_separator) valueNode p5 where
      "parseValue Nd k p = Some ((valueNode, None), p5)"
      "peekChar (skipWhitespace p5) \<noteq> 0x5D" "peekChar (skipWhitespace p5) \<noteq> 0x2C"
      "r = ((set_Children (Children n @ [valueNode]) n,
             Some (''expected ',' or ']' in array at line ''
                   @ fmt_d (line (skipWhitespace p5)) @ '' col ''
                   @ fmt_d (col (skipWhitespace p5)))),
            skipWhitespace p5)"
  | (continue) valueNode p5 where
      "parseValue Nd k p = Some ((valueNode, None), p5)"
      "peekChar (skipWhitespace p5) = 0x2C"
      "parseArray_loop Nd k (set_Children (Children n @ [valueNode]) n)
         (skipWhitespace (consumeChar (skipWhitespace p5))) = Some r"
  using assms
  by (auto simp: Let_def split: if_splits option.splits prod.splits)

subsection \<open>What a parser call guarantees\<close>

lemma set_End_sel [simp]:
  "Type (set_End l c n) = Type n" "Value (set_End l c n) = Value n"
  "Children (set_End l c n) = Children n" "Source (set_End l c n) = Source n"
  "start_of (set_End l c n) = start_of n" "end_of (set_End l c n) = (l, c)"
  by (simp_all add: set_End_def start_of_def end_of_def)

lemma set_Value_sel [simp]:
  "Type (set_Value v n) = Type n" "Value (set_Value v n) = v"
  "Children (set_Value v n) = Children n" "Source (set_Value v n) = Source n"
  "start_of (set_Value v n) = start_of n" "end_of (set_Value v n) = end_of n"
  by (simp_all add: set_Value_def start_of_def end_of_def)

lemma set_Children_sel [simp]:
  "Type (set_Children cs n) = Type n" "Value (set_Children cs n) = Value n"
  "Children (set_Children cs n) = cs" "Source (set_Children cs n) = Source n"
  "start_of (set_Children cs n) = start_of n" "end_of (set_Children cs n) = end_of n"
  by (simp_all add: set_Children_def start_of_def end_of_def)

lemma new_node_sel [simp]:
  "Type (new_node t p) = t" "Value (new_node t p) = []"
  "Children (new_node t p) = []" "Source (new_node t p) = source p"
  "start_of (new_node t p) = cursor p" "end_of (new_node t p) = (0, 0)"
  by (simp_all add: new_node_def start_of_def end_of_def cursor_def)

lemma span_ok_iff: "span_ok n = pos_le (start_of n) (end_of n)"
  by (auto simp: span_ok_def pos_le_def start_of_def end_of_def)

lemma nodes_eq: "nodes n = n # concat (map nodes_opt (Children n))"
  by (cases n) (simp add: nodes_opt_def [abs_def])

lemma nodes_opt_simps [simp]: "nodes_opt None = []" "nodes_opt (Some m) = nodes m"
  by (simp_all add: nodes_opt_def)

lemma good_tree_iff:
  "good_tree n = (good_node n \<and> list_all (\<lambda>c. list_all good_node (nodes_opt c)) (Children n))"
  by (subst good_tree_def, subst nodes_eq) (auto simp: list_all_iff)

lemma good_tree_leaf: "Children n = [] \<Longrightarrow> span_ok n \<Longrightarrow> good_tree n"
  by (simp add: good_tree_iff good_node_def)

lemma good_tree_span: "good_tree n \<Longrightarrow> span_ok n"
  by (simp add: good_tree_iff good_node_def)

lemma advances_cursor: "advances p q \<Longrightarrow> pos_le (cursor p) (cursor q)"
  by (simp add: advances_def)

lemma cursor_line_col [simp]: "(line p, col p) = cursor p"
  by (simp add: cursor_def)

lemma peekChar_nonzero: "peekChar p \<noteq> 0 \<Longrightarrow> \<not> isEOF p"
  by (auto simp: peekChar_def isEOF_def)

lemma consumeChar_strict: "peekChar p \<noteq> 0 \<Longrightarrow> pos_less (cursor p) (cursor (consumeChar p))"
  using consumeChar_not_EOF peekChar_nonzero by blast

lemma set_End_leaf_good:
  "Children n = [] \<Longrightarrow> pos_le (start_of n) (l, c) \<Longrightarrow> good_tree (set_End l c n)"
  by (rule good_tree_leaf) (simp_all add: span_ok_iff)

lemma parseString_post: "wf_parser p \<Longrightarrow> node_post p (parseString p)"
proof -
  assume wf: "wf_parser p"
  obtain r lit w where sc: "scan_string (drop (pos (consumeChar p)) (runes p)) = (r, lit, w)"
    by (cases "scan_string (drop (pos (consumeChar p)) (runes p))") auto
  define p' where "p' = consume_n w (consumeChar p)"
  have adv: "advances p p'"
    unfolding p'_def by (rule advances_trans [OF advances_consumeChar advances_consume_n])
  have le: "pos_le (cursor p) (cursor p')"
    using advances_cursor [OF adv] by simp
  show ?thesis
    using adv le
    by (cases r)
       (simp_all add: parseString_scan [OF wf] sc Let_def node_post_def p'_def [symmetric]
          set_End_leaf_good partial_tree_def span_ok_iff)
qed

lemma parseString_shape:
  "wf_parser p \<Longrightarrow> parseString p = ((n, err), p') \<Longrightarrow> Type n = NodeString \<and> Children n = []"
  by (auto simp: parseString_scan Let_def split: prod.splits string_end.splits)

lemma parseNumber_post: "wf_parser p \<Longrightarrow> node_post p (parseNumber Nd p)"
proof -
  assume wf: "wf_parser p"
  define p' where "p' = consume_n (length (takeWhile (number_rune Nd) (drop (pos p) (runes p)))) p"
  have adv: "advances p p'"
    unfolding p'_def by simp
  have le: "pos_le (cursor p) (cursor p')"
    using advances_cursor [OF adv] by simp
  show ?thesis
    using adv le
    by (simp add: parseNumber_def parseNumber_loop_takeWhile [OF wf] Let_def node_post_def
        p'_def [symmetric] set_End_leaf_good)
qed

lemma parseBoolean_post: "node_post p (parseBoolean p)"
proof -
  have "pos_le (cursor p) (cursor (consume_n k p))" for k
    using advances_cursor [OF advances_consume_n, of p k] by simp
  then show ?thesis
    by (simp add: parseBoolean_def Let_def node_post_def set_End_leaf_good partial_tree_def
       )
qed

lemma parseNull_post: "node_post p (parseNull p)"
proof -
  have "pos_le (cursor p) (cursor (consume_n k p))" for k
    using advances_cursor [OF advances_consume_n, of p k] by simp
  then show ?thesis
    by (simp add: parseNull_def Let_def node_post_def set_End_leaf_good partial_tree_def
       )
qed

lemma node_post_value_post:
  assumes "node_post q ((n, err), p')" "advances p q"
  shows "value_post p ((Some n, err), p')"
  using assms
  by (auto simp: node_post_def value_post_def intro: advances_trans dest: advances_cursor)

lemma parseValue_step:
  assumes O: "\<And>p r. wf_parser p \<Longrightarrow> parseObject Nd k p = Some r \<Longrightarrow> node_post p r"
    and A: "\<And>p r. wf_parser p \<Longrightarrow> parseArray Nd k p = Some r \<Longrightarrow> node_post p r"
    and wf: "wf_parser p"
    and r: "parseValue Nd (Suc k) p = Some r"
  shows "value_post p r"
proof -
  have adv: "advances p (skipWhitespace p)"
    by simp
  have wf1: "wf_parser (skipWhitespace p)"
    using adv wf by (rule wf_parser_advances)
  from r show ?thesis
  proof (cases rule: parseValue_cases)
    case eof
    then show ?thesis by (simp add: value_post_def)
  next
    case (object n err p')
    with O [OF wf1] adv show ?thesis by (auto intro: node_post_value_post)
  next
    case (array n err p')
    with A [OF wf1] adv show ?thesis by (auto intro: node_post_value_post)
  next
    case (string n err p')
    with parseString_post [OF wf1] adv show ?thesis by (auto intro: node_post_value_post)
  next
    case (boolean n err p')
    with parseBoolean_post [of "skipWhitespace p"] adv show ?thesis
      by (auto intro: node_post_value_post)
  next
    case (null n err p')
    with parseNull_post [of "skipWhitespace p"] adv show ?thesis
      by (auto intro: node_post_value_post)
  next
    case (number n err p')
    with parseNumber_post [OF wf1, of Nd] adv show ?thesis
      by (auto intro: node_post_value_post)
  qed
qed

lemma span_ok_set_Children [simp]: "span_ok (set_Children cs n) = span_ok n"
  by (simp add: span_ok_iff)

lemma partial_tree_good:
  assumes "partial_tree n" "pos_le (start_of n) (l, c)"
  shows "good_tree (set_End l c n)"
  using assms
  by (auto simp: good_tree_iff good_node_def partial_tree_def span_ok_iff list_all_iff)

lemma value_post_success:
  assumes "value_post p ((vo, None), p')"
  obtains v where "vo = Some v" "good_tree v" "pos_le (cursor p) (start_of v)"
    "end_of v = cursor p'" "advances p p'"
  using assms by (cases vo) (auto simp: value_post_def)

lemma value_post_advances: "value_post p ((vo, err), p') \<Longrightarrow> advances p p'"
  by (simp add: value_post_def)

lemma partial_tree_snoc:
  assumes "partial_tree n" "end_of n = (0, 0)" "c \<noteq> None" "list_all good_node (nodes_opt c)"
    "Type n = NodeObject \<longrightarrow> key_ok c"
  shows "partial_tree (set_Children (Children n @ [c]) n)"
  using assms by (auto simp: partial_tree_def)

lemma object_entry:
  assumes wf: "wf_parser p1"
    and key: "parseString p1 = ((keyNode, None), p2)"
    and colon: "peekChar (skipWhitespace p2) = 0x3A"
    and val: "value_post (consumeChar (skipWhitespace p2)) ((valueNode, None), p5)"
    and n: "partial_tree n" "end_of n = (0, 0)"
  shows "partial_tree (set_Children (Children n @ [Some (set_Children [valueNode] keyNode)]) n)"
proof -
  from val obtain v where v: "valueNode = Some v" "good_tree v"
    "pos_le (cursor (consumeChar (skipWhitespace p2))) (start_of v)"
    by (rule value_post_success)
  from parseString_post [OF wf] key
  have k: "good_tree keyNode" "end_of keyNode = cursor p2"
    by (simp_all add: node_post_def)
  from parseString_shape [OF wf key]
  have sh: "Type keyNode = NodeString" "Children keyNode = []"
    by simp_all
  have "pos_le (cursor p2) (cursor (skipWhitespace p2))"
    by (rule advances_cursor) simp
  moreover have "pos_less (cursor (skipWhitespace p2)) (cursor (consumeChar (skipWhitespace p2)))"
    using colon by (intro consumeChar_strict) simp
  ultimately have lt: "pos_less (end_of keyNode) (start_of v)"
    using v(3) k(2) by (metis pos_le_less_trans pos_less_le_trans)
  have sv: "pos_le (start_of v) (end_of v)"
    using good_tree_span [OF v(2)] by (simp add: span_ok_iff)
  have "set_Children [] (set_Children [valueNode] keyNode) = keyNode"
    using sh(2) by (cases keyNode) (simp add: set_Children_def)
  then have "key_string (set_Children [valueNode] keyNode)"
    unfolding key_string_def using wf key k(2) by (intro exI [of _ p1]) simp
  then have kok: "key_ok (Some (set_Children [valueNode] keyNode))"
    using sh lt sv v(1) by (simp add: key_ok_def)
  have "good_tree (set_Children [valueNode] keyNode)"
    using k(1) v(1,2) sh
    by (simp add: good_tree_iff [of "set_Children _ _"] good_node_def good_tree_span)
       (simp add: good_tree_def)
  then have "list_all good_node (nodes_opt (Some (set_Children [valueNode] keyNode)))"
    by (simp add: good_tree_def)
  then show ?thesis
    using n kok by (intro partial_tree_snoc) simp_all
qed

lemma object_entry_advances:
  assumes wf: "wf_parser p1"
    and key: "parseString p1 = ((keyNode, err), p2)"
  shows "advances p1 p2" "wf_parser p2"
proof -
  show "advances p1 p2"
    using parseString_post [OF wf] key by (simp add: node_post_def)
  then show "wf_parser p2"
    using wf by (rule wf_parser_advances)
qed

lemma loop_post_error:
  "advances p p' \<Longrightarrow> partial_tree m \<Longrightarrow> start_of m = start_of n \<Longrightarrow> Type m = Type n \<Longrightarrow>
   loop_post n p ((m, Some e), p')"
  by (simp add: loop_post_def)

lemma loop_post_closed:
  assumes "advances p p'" "partial_tree m" "start_of m = start_of n" "Type m = Type n"
    "pos_le (start_of n) (cursor p)"
  shows "loop_post n p ((set_End (line p') (col p') m, None), p')"
proof -
  have "pos_le (start_of m) (cursor p')"
    using assms(1,3,5) by (metis advances_cursor pos_le_trans)
  then show ?thesis
    using assms by (simp add: loop_post_def partial_tree_good)
qed

lemma loop_post_continue:
  assumes "advances p q" "loop_post m q r" "start_of m = start_of n" "Type m = Type n"
  shows "loop_post n p r"
  using assms by (cases r) (auto simp: loop_post_def intro: advances_trans)

lemma parseObject_loop_step:
  assumes V: "\<And>p r. wf_parser p \<Longrightarrow> parseValue Nd k p = Some r \<Longrightarrow> value_post p r"
    and L: "\<And>n p r. wf_parser p \<Longrightarrow> loop_pre n p \<Longrightarrow> parseObject_loop Nd k n p = Some r
              \<Longrightarrow> loop_post n p r"
    and wf: "wf_parser p"
    and pre: "loop_pre n p"
    and r: "parseObject_loop Nd (Suc k) n p = Some r"
  shows "loop_post n p r"
proof -
  define p1 where "p1 = skipWhitespace p"
  have a1: "advances p p1" and wf1: "wf_parser p1"
    using wf by (simp_all add: p1_def wf_parser_advances [of p])
  from pre have n: "partial_tree n" "end_of n = (0, 0)" "pos_le (start_of n) (cursor p)"
    by (simp_all add: loop_pre_def)
  from r show ?thesis
  proof (cases rule: parseObject_loop_cases)
    case no_key
    then show ?thesis
      using a1 n by (simp add: loop_post_error p1_def)
  next
    case (key_error keyNode e p2)
    then have "advances p1 p2"
      using object_entry_advances [OF wf1] by (simp add: p1_def)
    then show ?thesis
      using a1 n key_error by (simp add: loop_post_error advances_trans [of p p1])
  next
    case (no_colon keyNode p2)
    then have "advances p1 p2"
      using object_entry_advances [OF wf1] by (simp add: p1_def)
    then have "advances p (skipWhitespace p2)"
      using a1 by (metis advances_trans advances_skipWhitespace)
    then show ?thesis
      using n no_colon by (simp add: loop_post_error)
  next
    case (value_error keyNode p2 valueNode e p5)
    then have 2: "advances p1 p2" "wf_parser p2"
      using object_entry_advances [OF wf1] by (simp_all add: p1_def)
    have wf4: "wf_parser (consumeChar (skipWhitespace p2))"
      using 2(2) by (simp add: wf_parser_advances [of p2])
    have "advances (consumeChar (skipWhitespace p2)) p5"
      using V [OF wf4 value_error(4)] by (rule value_post_advances)
    then have "advances p p5"
      using a1 2(1)
      by (metis advances_trans advances_skipWhitespace advances_consumeChar)
    then show ?thesis
      using n value_error by (simp add: loop_post_error)
  next
    case (closed keyNode p2 valueNode p5)
    then have k: "parseString p1 = ((keyNode, None), p2)"
      by (simp add: p1_def)
    have 2: "advances p1 p2" "wf_parser p2"
      using object_entry_advances [OF wf1 k] by simp_all
    have wf4: "wf_parser (consumeChar (skipWhitespace p2))"
      using 2(2) by (simp add: wf_parser_advances [of p2])
    note vp = V [OF wf4 closed(4)]
    have "advances (consumeChar (skipWhitespace p2)) p5"
      using vp by (rule value_post_advances)
    then have a7: "advances p (consumeChar (skipWhitespace p5))"
      using a1 2(1)
      by (metis advances_trans advances_skipWhitespace advances_consumeChar)
    have pt: "partial_tree (set_Children (Children n @ [Some (set_Children [valueNode] keyNode)]) n)"
      using wf1 k closed(3) vp n(1,2) by (rule object_entry)
    show ?thesis
      unfolding closed(6) using a7 pt n(3) by (intro loop_post_closed) simp_all
  next
    case (no_separator keyNode p2 valueNode p5)
    then have k: "parseString p1 = ((keyNode, None), p2)"
      by (simp add: p1_def)
    have 2: "advances p1 p2" "wf_parser p2"
      using object_entry_advances [OF wf1 k] by simp_all
    have wf4: "wf_parser (consumeChar (skipWhitespace p2))"
      using 2(2) by (simp add: wf_parser_advances [of p2])
    note vp = V [OF wf4 no_separator(4)]
    have "advances (consumeChar (skipWhitespace p2)) p5"
      using vp by (rule value_post_advances)
    then have a6: "advances p (skipWhitespace p5)"
      using a1 2(1)
      by (metis advances_trans advances_skipWhitespace advances_consumeChar)
    have pt: "partial_tree (set_Children (Children n @ [Some (set_Children [valueNode] keyNode)]) n)"
      using wf1 k no_separator(3) vp n(1,2) by (rule object_entry)
    show ?thesis
      unfolding no_separator(7) using a6 pt by (intro loop_post_error) simp_all
  next
    case (continue keyNode p2 valueNode p5)
    then have k: "parseString p1 = ((keyNode, None), p2)"
      by (simp add: p1_def)
    have 2: "advances p1 p2" "wf_parser p2"
      using object_entry_advances [OF wf1 k] by simp_all
    have wf4: "wf_parser (consumeChar (skipWhitespace p2))"
      using 2(2) by (simp add: wf_parser_advances [of p2])
    note vp = V [OF wf4 continue(4)]
    have "advances (consumeChar (skipWhitespace p2)) p5"
      using vp by (rule value_post_advances)
    then have a7: "advances p (consumeChar (skipWhitespace p5))"
      using a1 2(1)
      by (metis advances_trans advances_skipWhitespace advances_consumeChar)
    have wf7: "wf_parser (consumeChar (skipWhitespace p5))"
      using a7 wf by (rule wf_parser_advances)
    have pt: "partial_tree (set_Children (Children n @ [Some (set_Children [valueNode] keyNode)]) n)"
      using wf1 k continue(3) vp n(1,2) by (rule object_entry)
    have "pos_le (start_of n) (cursor (consumeChar (skipWhitespace p5)))"
      using n(3) advances_cursor [OF a7] by (rule pos_le_trans)
    then have "loop_pre (set_Children (Children n @ [Some (set_Children [valueNode] keyNode)]) n)
        (consumeChar (skipWhitespace p5))"
      using pt n(2) by (simp add: loop_pre_def)
    from L [OF wf7 this continue(6)] show ?thesis
      by (rule loop_post_continue [OF a7]) simp_all
  qed
qed

lemma array_entry:
  assumes val: "value_post p ((valueNode, None), p5)"
    and n: "partial_tree n" "end_of n = (0, 0)" "Type n = NodeArray"
  shows "partial_tree (set_Children (Children n @ [valueNode]) n)"
proof -
  from val obtain v where v: "valueNode = Some v" "good_tree v"
    by (rule value_post_success)
  then have "list_all good_node (nodes_opt valueNode)"
    by (simp add: good_tree_def)
  then show ?thesis
    using n v(1) by (intro partial_tree_snoc) simp_all
qed

lemma parseArray_loop_step:
  assumes V: "\<And>p r. wf_parser p \<Longrightarrow> parseValue Nd k p = Some r \<Longrightarrow> value_post p r"
    and L: "\<And>n p r. wf_parser p \<Longrightarrow> loop_pre n p \<Longrightarrow> Type n = NodeArray
              \<Longrightarrow> parseArray_loop Nd k n p = Some r \<Longrightarrow> loop_post n p r"
    and wf: "wf_parser p"
    and pre: "loop_pre n p"
    and ty: "Type n = NodeArray"
    and r: "parseArray_loop Nd (Suc k) n p = Some r"
  shows "loop_post n p r"
proof -
  from pre have n: "partial_tree n" "end_of n = (0, 0)" "pos_le (start_of n) (cursor p)"
    by (simp_all add: loop_pre_def)
  from r show ?thesis
  proof (cases rule: parseArray_loop_cases)
    case (value_error valueNode e p5)
    have "advances p p5"
      using V [OF wf value_error(1)] by (rule value_post_advances)
    then show ?thesis
      using n value_error by (simp add: loop_post_error)
  next
    case (closed valueNode p5)
    note vp = V [OF wf closed(1)]
    have "advances p p5"
      using vp by (rule value_post_advances)
    then have a7: "advances p (consumeChar (skipWhitespace p5))"
      by (metis advances_trans advances_skipWhitespace advances_consumeChar)
    have pt: "partial_tree (set_Children (Children n @ [valueNode]) n)"
      using vp n(1,2) ty by (rule array_entry)
    show ?thesis
      unfolding closed(3) using a7 pt n(3) by (intro loop_post_closed) simp_all
  next
    case (no_separator valueNode p5)
    note vp = V [OF wf no_separator(1)]
    have "advances p p5"
      using vp by (rule value_post_advances)
    then have a6: "advances p (skipWhitespace p5)"
      by (metis advances_trans advances_skipWhitespace)
    have pt: "partial_tree (set_Children (Children n @ [valueNode]) n)"
      using vp n(1,2) ty by (rule array_entry)
    show ?thesis
      unfolding no_separator(4) using a6 pt by (intro loop_post_error) simp_all
  next
    case (continue valueNode p5)
    note vp = V [OF wf continue(1)]
    have "advances p p5"
      using vp by (rule value_post_advances)
    then have a8: "advances p (skipWhitespace (consumeChar (skipWhitespace p5)))"
      by (metis advances_trans advances_skipWhitespace advances_consumeChar)
    have wf8: "wf_parser (skipWhitespace (consumeChar (skipWhitespace p5)))"
      using a8 wf by (rule wf_parser_advances)
    have pt: "partial_tree (set_Children (Children n @ [valueNode]) n)"
      using vp n(1,2) ty by (rule array_entry)
    have "pos_le (start_of n) (cursor (skipWhitespace (consumeChar (skipWhitespace p5))))"
      using n(3) advances_cursor [OF a8] by (rule pos_le_trans)
    then have "loop_pre (set_Children (Children n @ [valueNode]) n)
        (skipWhitespace (consumeChar (skipWhitespace p5)))"
      using pt n(2) by (simp add: loop_pre_def)
    from L [OF wf8 this _ continue(3)] ty
    have "loop_post (set_Children (Children n @ [valueNode]) n)
        (skipWhitespace (consumeChar (skipWhitespace p5))) r"
      by simp
    then show ?thesis
      by (rule loop_post_continue [OF a8]) simp_all
  qed
qed

lemma loop_post_node_post:
  assumes "advances p q" "start_of n = cursor p" "loop_post n q r"
  shows "node_post p r"
  using assms by (cases r) (auto simp: loop_post_def node_post_def intro: advances_trans)

lemma empty_node_post:
  "node_post p
     ((set_End (line (consumeChar (skipWhitespace (consumeChar p))))
         (col (consumeChar (skipWhitespace (consumeChar p))))
         (set_Children [] (new_node t p)), None),
      consumeChar (skipWhitespace (consumeChar p)))"
proof -
  have a: "advances p (consumeChar (skipWhitespace (consumeChar p)))"
    by (metis advances_trans advances_skipWhitespace advances_consumeChar)
  then show ?thesis
    by (simp add: node_post_def set_End_leaf_good advances_cursor)
qed

lemma first_loop_pre:
  "loop_pre (set_Children [] (new_node t p)) (skipWhitespace (consumeChar p))"
proof -
  have "advances p (skipWhitespace (consumeChar p))"
    by (metis advances_trans advances_skipWhitespace advances_consumeChar)
  then show ?thesis
    by (simp add: loop_pre_def partial_tree_def advances_cursor)
qed

lemma parseObject_step:
  assumes L: "\<And>n p r. wf_parser p \<Longrightarrow> loop_pre n p \<Longrightarrow> parseObject_loop Nd k n p = Some r
              \<Longrightarrow> loop_post n p r"
    and wf: "wf_parser p"
    and r: "parseObject Nd k p = Some r"
  shows "node_post p r"
  using r
proof (cases rule: parseObject_cases)
  case empty
  then show ?thesis by (simp add: empty_node_post)
next
  case loop
  have a: "advances p (skipWhitespace (consumeChar p))"
    by (metis advances_trans advances_skipWhitespace advances_consumeChar)
  then have "wf_parser (skipWhitespace (consumeChar p))"
    using wf by (rule wf_parser_advances)
  from L [OF this first_loop_pre loop(2)] show ?thesis
    by (rule loop_post_node_post [OF a, rotated]) simp
qed

lemma parseArray_step:
  assumes L: "\<And>n p r. wf_parser p \<Longrightarrow> loop_pre n p \<Longrightarrow> Type n = NodeArray
              \<Longrightarrow> parseArray_loop Nd k n p = Some r \<Longrightarrow> loop_post n p r"
    and wf: "wf_parser p"
    and r: "parseArray Nd k p = Some r"
  shows "node_post p r"
  using r
proof (cases rule: parseArray_cases)
  case empty
  then show ?thesis by (simp add: empty_node_post)
next
  case loop
  have a: "advances p (skipWhitespace (consumeChar p))"
    by (metis advances_trans advances_skipWhitespace advances_consumeChar)
  then have "wf_parser (skipWhitespace (consumeChar p))"
    using wf by (rule wf_parser_advances)
  from L [OF this first_loop_pre _ loop(2)] show ?thesis
    by (intro loop_post_node_post [OF a]) simp_all
qed

lemma parse_posts:
  "(\<forall>p r. wf_parser p \<longrightarrow> parseValue Nd k p = Some r \<longrightarrow> value_post p r)
   \<and> (\<forall>n p r. wf_parser p \<longrightarrow> loop_pre n p \<longrightarrow> parseObject_loop Nd k n p = Some r
        \<longrightarrow> loop_post n p r)
   \<and> (\<forall>n p r. wf_parser p \<longrightarrow> loop_pre n p \<longrightarrow> Type n = NodeArray
        \<longrightarrow> parseArray_loop Nd k n p = Some r \<longrightarrow> loop_post n p r)"
proof (induction k)
  case 0
  show ?case by simp
next
  case (Suc k)
  then have V: "\<And>p r. wf_parser p \<Longrightarrow> parseValue Nd k p = Some r \<Longrightarrow> value_post p r"
    and LO: "\<And>n p r. wf_parser p \<Longrightarrow> loop_pre n p \<Longrightarrow> parseObject_loop Nd k n p = Some r
              \<Longrightarrow> loop_post n p r"
    and LA: "\<And>n p r. wf_parser p \<Longrightarrow> loop_pre n p \<Longrightarrow> Type n = NodeArray
              \<Longrightarrow> parseArray_loop Nd k n p = Some r \<Longrightarrow> loop_post n p r"
    by blast+
  have "value_post p r" if "wf_parser p" "parseValue Nd (Suc k) p = Some r" for p r
    using parseObject_step [of Nd k, OF LO] parseArray_step [of Nd k, OF LA] that
    by (rule parseValue_step [of Nd k])
  moreover have "loop_post n p r"
    if "wf_parser p" "loop_pre n p" "parseObject_loop Nd (Suc k) n p = Some r" for n p r
    using V LO that by (rule parseObject_loop_step [of Nd k])
  moreover have "loop_post n p r"
    if "wf_parser p" "loop_pre n p" "Type n = NodeArray"
      "parseArray_loop Nd (Suc k) n p = Some r" for n p r
    using V LA that by (rule parseArray_loop_step [of Nd k])
  ultimately show ?case by blast
qed

lemma parseValue_post: "wf_parser p \<Longrightarrow> parseValue Nd k p = Some r \<Longrightarrow> value_post p r"
  using parse_posts by blast

lemma parseObject_post: "wf_parser p \<Longrightarrow> parseObject Nd k p = Some r \<Longrightarrow> node_post p r"
  using parse_posts parseObject_step [of Nd k] by blast

lemma parseArray_post: "wf_parser p \<Longrightarrow> parseArray Nd k p = Some r \<Longrightarrow> node_post p r"
  using parse_posts parseArray_step [of Nd k] by blast

lemma Parse_cases [consumes 1, case_names error success]:
  assumes "Parse Nd k p = Some r"
  obtains
    (error) n e p' where "parseValue Nd k p = Some ((n, Some e), p')" "r = ((n, Some e), p')"
  | (success) n q where "parseValue Nd k p = Some ((n, None), q)"
      "r = ((n, None), skipWhitespace q)"
  using assms by (auto simp: Parse_def split: option.splits prod.splits if_splits)

lemma Parse_tree:
  assumes "wf_parser p" "Parse Nd k p = Some ((Some n, err), p')"
  shows "if err = None then good_tree n else partial_tree n"
  using assms(2)
proof (cases rule: Parse_cases)
  case (error m e q)
  with parseValue_post [OF assms(1) error(1)] show ?thesis
    by (auto simp: value_post_def)
next
  case (success m q)
  with parseValue_post [OF assms(1) success(1)] show ?thesis
    by (auto simp: value_post_def)
qed


lemma good_tree_nodes: "good_tree n \<Longrightarrow> m \<in> set (nodes n) \<Longrightarrow> good_node m"
  by (simp add: good_tree_def list_all_iff)

lemma partial_tree_nodes:
  "partial_tree n \<Longrightarrow> c \<in> set (Children n) \<Longrightarrow> m \<in> set (nodes_opt c) \<Longrightarrow> good_node m"
  by (auto simp: partial_tree_def list_all_iff)

lemma partial_tree_proper_nodes:
  "partial_tree n \<Longrightarrow> m \<in> set (nodes n) \<Longrightarrow> m = n \<or> good_node m"
  by (subst (asm) nodes_eq) (auto simp: partial_tree_def list_all_iff)

lemma good_tree_partial: "good_tree n \<Longrightarrow> partial_tree n"
  by (auto simp: good_tree_iff good_node_def partial_tree_def list_all_iff)

subsection \<open>Spans of the nodes of a tree\<close>

text \<open>
  Claim C1, as amended. In every tree that \<^verbatim>\<open>Parse\<close> returns, each node below the root
  has \<open>startLine \<le> endLine\<close> and, when these are equal, \<open>startCol \<le> endCol\<close>. So
  does the root when \<^verbatim>\<open>Parse\<close> returns no error. The root of a tree returned with an
  error either satisfies the invariant or has its end position left at \<open>(0, 0)\<close>.
\<close>

theorem Parse_span_invariant:
  assumes "wf_parser p" and "Parse Nd k p = Some ((Some n, err), p')"
  shows "(err = None \<longrightarrow> (\<forall>m \<in> set (nodes n). span_ok m))
     \<and> (\<forall>c \<in> set (Children n). \<forall>m \<in> set (nodes_opt c). span_ok m)
     \<and> (span_ok n \<or> end_of n = (0, 0))"
proof -
  note t = Parse_tree [OF assms]
  have pt: "partial_tree n"
    using t good_tree_partial by (cases "err = None") simp_all
  have "\<forall>m \<in> set (nodes n). span_ok m" if "err = None"
    using t that good_tree_nodes [of n] by (simp add: good_node_def)
  moreover have "\<forall>c \<in> set (Children n). \<forall>m \<in> set (nodes_opt c). span_ok m"
    using partial_tree_nodes [OF pt] by (simp add: good_node_def)
  moreover have "span_ok n \<or> end_of n = (0, 0)"
    using pt by (simp add: partial_tree_def)
  ultimately show ?thesis by blast
qed

theorem Parse_span_invariant_witness:
  "wf_parser (NewParser ''[1, 2]'')
   \<and> Parse no_Nd 13 (NewParser ''[1, 2]'') =
       Some ((Some (Node NodeArray []
                [Some (Node NodeNumber ''1'' [] 1 2 1 3 ''[1, 2]''),
                 Some (Node NodeNumber ''2'' [] 1 5 1 6 ''[1, 2]'')]
                1 1 1 7 ''[1, 2]''), None),
             \<lparr>runes = [91, 49, 44, 32, 50, 93], pos = 6, line = 1, col = 7,
              length_p = 6, source = ''[1, 2]''\<rparr>)
   \<and> list_all span_ok (nodes (Node NodeArray []
                [Some (Node NodeNumber ''1'' [] 1 2 1 3 ''[1, 2]''),
                 Some (Node NodeNumber ''2'' [] 1 5 1 6 ''[1, 2]'')]
                1 1 1 7 ''[1, 2]''))"
proof -
  have w: "wf_parser (NewParser ''[1, 2]'')"
    by (simp add: wf_parser_def NewParser_def Let_def)
  have e: "Parse no_Nd 13 (NewParser ''[1, 2]'') =
       Some ((Some (Node NodeArray []
                [Some (Node NodeNumber ''1'' [] 1 2 1 3 ''[1, 2]''),
                 Some (Node NodeNumber ''2'' [] 1 5 1 6 ''[1, 2]'')]
                1 1 1 7 ''[1, 2]''), None),
             \<lparr>runes = [91, 49, 44, 32, 50, 93], pos = 6, line = 1, col = 7,
              length_p = 6, source = ''[1, 2]''\<rparr>)"
    by code_simp
  from Parse_span_invariant [OF w e] show ?thesis
    using w e by (simp add: list_all_iff)
qed

text \<open>
  The claim as stated fails on the unclosed array \<^verbatim>\<open>[1, 2, 3\<close>: the partial root
  returned with the error starts at line 1 and ends at line 0.
\<close>

theorem Parse_span_invariant_counterexample:
  "Parse no_Nd 17 (NewParser ''[1, 2, 3'') =
       Some ((Some (Node NodeArray []
                [Some (Node NodeNumber ''1'' [] 1 2 1 3 ''[1, 2, 3''),
                 Some (Node NodeNumber ''2'' [] 1 5 1 6 ''[1, 2, 3''),
                 Some (Node NodeNumber ''3'' [] 1 8 1 9 ''[1, 2, 3'')]
                1 1 0 0 ''[1, 2, 3''),
              Some ''expected ',' or ']' in array at line 1 col 9''),
             \<lparr>runes = [91, 49, 44, 32, 50, 44, 32, 51], pos = 8, line = 1, col = 9,
              length_p = 8, source = ''[1, 2, 3''\<rparr>)
   \<and> \<not> span_ok (Node NodeArray []
                [Some (Node NodeNumber ''1'' [] 1 2 1 3 ''[1, 2, 3''),
                 Some (Node NodeNumber ''2'' [] 1 5 1 6 ''[1, 2, 3''),
                 Some (Node NodeNumber ''3'' [] 1 8 1 9 ''[1, 2, 3'')]
                1 1 0 0 ''[1, 2, 3'')"
  by code_simp

lemma key_ok_iff:
  "key_ok c =
     (\<exists>k v. c = Some k \<and> Type k = NodeString \<and> key_string k \<and> Children k = [Some v]
        \<and> pos_less (end_of k) (start_of v) \<and> pos_le (start_of v) (end_of v))"
proof (cases c)
  case None
  then show ?thesis by (simp add: key_ok_def)
next
  case (Some k)
  show ?thesis
  proof (cases "Children k")
    case Nil
    then show ?thesis using Some by (simp add: key_ok_def)
  next
    case (Cons x xs)
    then show ?thesis
      using Some by (cases x; cases xs) (simp_all add: key_ok_def)
  qed
qed

text \<open>
  Claim C2. In every tree that \<^verbatim>\<open>Parse\<close> returns, each child of an Object node is a
  String node (the key) with exactly one child (the value); the end of the key is the
  cursor that \<^verbatim>\<open>parseString\<close> left after the key string itself, which lies strictly
  before the start and the end of the value: the span of the key does not enclose the
  span of its value.
\<close>

theorem object_key_span:
  assumes "wf_parser p" and "Parse Nd k p = Some ((Some n, err), p')"
    and "m \<in> set (nodes n)" and "Type m = NodeObject" and "c \<in> set (Children m)"
  shows "\<exists>key v. c = Some key \<and> Type key = NodeString \<and> Children key = [Some v]
           \<and> key_string key
           \<and> pos_less (end_of key) (start_of v) \<and> pos_less (end_of key) (end_of v)
           \<and> \<not> encloses key v"
proof -
  note t = Parse_tree [OF assms(1,2)]
  have pt: "partial_tree n"
    using t good_tree_partial by (cases "err = None") simp_all
  have "list_all key_ok (Children m)"
  proof (cases "m = n")
    case True
    then show ?thesis using pt assms(4) by (simp add: partial_tree_def)
  next
    case False
    then have "good_node m"
      using partial_tree_proper_nodes [OF pt assms(3)] by simp
    then show ?thesis using assms(4) by (simp add: good_node_def)
  qed
  then have "key_ok c"
    using assms(5) by (simp add: list_all_iff)
  then obtain key v where kv: "c = Some key" "Type key = NodeString" "key_string key"
    "Children key = [Some v]" "pos_less (end_of key) (start_of v)"
    "pos_le (start_of v) (end_of v)"
    unfolding key_ok_iff by blast
  have lt: "pos_less (end_of key) (end_of v)"
    using kv(5,6) by (rule pos_less_le_trans)
  then have "\<not> encloses key v"
    by (auto simp: encloses_def pos_le_def pos_less_def)
  then show ?thesis
    using kv lt by blast
qed

theorem object_key_span_witness:
  \<open>wf_parser (NewParser ''{"a": 1}'')
   \<and> Parse no_Nd 17 (NewParser ''{"a": 1}'') =
       Some ((Some (Node NodeObject []
                [Some (Node NodeString ''a''
                   [Some (Node NodeNumber ''1'' [] 1 7 1 8 ''{"a": 1}'')]
                   1 2 1 5 ''{"a": 1}'')]
                1 1 1 9 ''{"a": 1}''), None),
             \<lparr>runes = [123, 34, 97, 34, 58, 32, 49, 125], pos = 8, line = 1, col = 9,
              length_p = 8, source = ''{"a": 1}''\<rparr>)
   \<and> pos_less
        (end_of (Node NodeString ''a''
                   [Some (Node NodeNumber ''1'' [] 1 7 1 8 ''{"a": 1}'')]
                   1 2 1 5 ''{"a": 1}''))
        (start_of (Node NodeNumber ''1'' [] 1 7 1 8 ''{"a": 1}''))
   \<and> encloses (Node NodeString ''a''
                   [Some (Node NodeNumber ''1'' [] 1 7 1 8 ''{"a": 1}'')]
                   1 2 1 5 ''{"a": 1}'')
        (Node NodeNumber ''1'' [] 1 7 1 8 ''{"a": 1}'') = False\<close>
proof -
  have w: \<open>wf_parser (NewParser ''{"a": 1}'')\<close>
    by (simp add: wf_parser_def NewParser_def Let_def)
  have e: \<open>Parse no_Nd 17 (NewParser ''{"a": 1}'') =
       Some ((Some (Node NodeObject []
                [Some (Node NodeString ''a''
                   [Some (Node NodeNumber ''1'' [] 1 7 1 8 ''{"a": 1}'')]
                   1 2 1 5 ''{"a": 1}'')]
                1 1 1 9 ''{"a": 1}''), None),
             \<lparr>runes = [123, 34, 97, 34, 58, 32, 49, 125], pos = 8, line = 1, col = 9,
              length_p = 8, source = ''{"a": 1}''\<rparr>)\<close>
    by code_simp
  have m: \<open>Node NodeObject []
                [Some (Node NodeString ''a''
                   [Some (Node NodeNumber ''1'' [] 1 7 1 8 ''{"a": 1}'')]
                   1 2 1 5 ''{"a": 1}'')]
                1 1 1 9 ''{"a": 1}''
      \<in> set (nodes (Node NodeObject []
                [Some (Node NodeString ''a''
                   [Some (Node NodeNumber ''1'' [] 1 7 1 8 ''{"a": 1}'')]
                   1 2 1 5 ''{"a": 1}'')]
                1 1 1 9 ''{"a": 1}''))\<close>
    by simp
  have t: \<open>Type (Node NodeObject []
                [Some (Node NodeString ''a''
                   [Some (Node NodeNumber ''1'' [] 1 7 1 8 ''{"a": 1}'')]
                   1 2 1 5 ''{"a": 1}'')]
                1 1 1 9 ''{"a": 1}'') = NodeObject\<close>
    by simp
  have c: \<open>Some (Node NodeString ''a''
                   [Some (Node NodeNumber ''1'' [] 1 7 1 8 ''{"a": 1}'')]
                   1 2 1 5 ''{"a": 1}'')
      \<in> set (Children (Node NodeObject []
                [Some (Node NodeString ''a''
                   [Some (Node NodeNumber ''1'' [] 1 7 1 8 ''{"a": 1}'')]
                   1 2 1 5 ''{"a": 1}'')]
                1 1 1 9 ''{"a": 1}''))\<close>
    by simp
  from object_key_span [OF w e m t c]
  obtain key v where kv: \<open>Some (Node NodeString ''a''
                   [Some (Node NodeNumber ''1'' [] 1 7 1 8 ''{"a": 1}'')]
                   1 2 1 5 ''{"a": 1}'') = Some key\<close>
      "Children key = [Some v]" "pos_less (end_of key) (start_of v)" "\<not> encloses key v"
    by blast
  from kv(1) have k: \<open>key = Node NodeString ''a''
                   [Some (Node NodeNumber ''1'' [] 1 7 1 8 ''{"a": 1}'')]
                   1 2 1 5 ''{"a": 1}''\<close>
    by simp
  from kv(2) have v: \<open>v = Node NodeNumber ''1'' [] 1 7 1 8 ''{"a": 1}''\<close>
    unfolding k by simp
  show ?thesis
    using w e kv(3,4) unfolding k v by simp
qed

subsection \<open>The end of a node is the cursor after it\<close>

text \<open>
  Claim C10. Whenever one of the parsers returns a node without an error, the end
  \<open>(endLine, endCol)\<close> of the node is the cursor of the state the parser leaves, that
  is, the position just after the last rune the node consumed: an exclusive end. Parsing
  \<^verbatim>\<open>true\<close> from column 1 gives the end column 5, and parsing \<^verbatim>\<open>{}\<close> from
  column 1 gives the end column 3.
\<close>

theorem end_is_cursor:
  "(wf_parser p \<and>
      (parseValue Nd k p = Some ((Some n, None), p') \<or>
       parseObject Nd k p = Some ((n, None), p') \<or>
       parseArray Nd k p = Some ((n, None), p') \<or>
       parseString p = ((n, None), p') \<or>
       parseNumber Nd p = ((n, None), p') \<or>
       parseBoolean p = ((n, None), p') \<or>
       parseNull p = ((n, None), p'))
      \<longrightarrow> (EndLine n, EndCol n) = (line p', col p'))
   \<and> ParseInput Nd ''true'' =
       Some ((Some (Node NodeBoolean ''true'' [] 1 1 1 5 ''true''), None),
             \<lparr>runes = [116, 114, 117, 101], pos = 4, line = 1, col = 5, length_p = 4,
              source = ''true''\<rparr>)
   \<and> ParseInput Nd ''{}'' =
       Some ((Some (Node NodeObject [] [] 1 1 1 3 ''{}''), None),
             \<lparr>runes = [123, 125], pos = 2, line = 1, col = 3, length_p = 2,
              source = ''{}''\<rparr>)"
proof -
  have "wf_parser p \<and>
      (parseValue Nd k p = Some ((Some n, None), p') \<or>
       parseObject Nd k p = Some ((n, None), p') \<or>
       parseArray Nd k p = Some ((n, None), p') \<or>
       parseString p = ((n, None), p') \<or>
       parseNumber Nd p = ((n, None), p') \<or>
       parseBoolean p = ((n, None), p') \<or>
       parseNull p = ((n, None), p'))
      \<longrightarrow> end_of n = cursor p'"
    using parseValue_post [of p Nd k "((Some n, None), p')"]
      parseObject_post [of p Nd k "((n, None), p')"]
      parseArray_post [of p Nd k "((n, None), p')"]
      parseString_post [of p] parseNumber_post [of p Nd]
      parseBoolean_post [of p] parseNull_post [of p]
    by (auto simp: value_post_def node_post_def)
  then have "wf_parser p \<and>
      (parseValue Nd k p = Some ((Some n, None), p') \<or>
       parseObject Nd k p = Some ((n, None), p') \<or>
       parseArray Nd k p = Some ((n, None), p') \<or>
       parseString p = ((n, None), p') \<or>
       parseNumber Nd p = ((n, None), p') \<or>
       parseBoolean p = ((n, None), p') \<or>
       parseNull p = ((n, None), p'))
      \<longrightarrow> (EndLine n, EndCol n) = (line p', col p')"
    unfolding end_of_def cursor_def .
  moreover have "ParseInput Nd ''true'' =
       Some ((Some (Node NodeBoolean ''true'' [] 1 1 1 5 ''true''), None),
             \<lparr>runes = [116, 114, 117, 101], pos = 4, line = 1, col = 5, length_p = 4,
              source = ''true''\<rparr>)"
    by code_simp
  moreover have "ParseInput Nd ''{}'' =
       Some ((Some (Node NodeObject [] [] 1 1 1 3 ''{}''), None),
             \<lparr>runes = [123, 125], pos = 2, line = 1, col = 3, length_p = 2,
              source = ''{}''\<rparr>)"
    by code_simp
  ultimately show ?thesis by blast
qed

theorem end_is_cursor_witness:
  "wf_parser (NewParser ''true'')
   \<and> parseBoolean (NewParser ''true'') =
       ((Node NodeBoolean ''true'' [] 1 1 1 5 ''true'', None),
        \<lparr>runes = [116, 114, 117, 101], pos = 4, line = 1, col = 5, length_p = 4,
         source = ''true''\<rparr>)
   \<and> EndCol (Node NodeBoolean ''true'' [] 1 1 1 5 ''true'') = 5"
proof -
  have w: "wf_parser (NewParser ''true'')"
    by (simp add: wf_parser_def NewParser_def Let_def)
  have e: "parseBoolean (NewParser ''true'') =
       ((Node NodeBoolean ''true'' [] 1 1 1 5 ''true'', None),
        \<lparr>runes = [116, 114, 117, 101], pos = 4, line = 1, col = 5, length_p = 4,
         source = ''true''\<rparr>)"
    by code_simp
  from end_is_cursor [of "NewParser ''true''" no_Nd 0 "Node NodeBoolean ''true'' [] 1 1 1 5 ''true''"
      "\<lparr>runes = [116, 114, 117, 101], pos = 4, line = 1, col = 5, length_p = 4,
         source = ''true''\<rparr>"]
  show ?thesis
    using w e by simp
qed

subsection \<open>More fuel changes nothing\<close>

lemma parseObject_fuel_mono_step:
  assumes LO: "\<And>n p r. parseObject_loop Nd k n p = Some r \<Longrightarrow> parseObject_loop Nd k' n p = Some r"
    and r: "parseObject Nd k p = Some r"
  shows "parseObject Nd k' p = Some r"
  using r
proof (cases rule: parseObject_cases)
  case empty
  then show ?thesis by (simp add: Let_def)
next
  case loop
  then show ?thesis using LO [OF loop(2)] by (simp add: Let_def)
qed

lemma parseArray_fuel_mono_step:
  assumes LA: "\<And>n p r. parseArray_loop Nd k n p = Some r \<Longrightarrow> parseArray_loop Nd k' n p = Some r"
    and r: "parseArray Nd k p = Some r"
  shows "parseArray Nd k' p = Some r"
  using r
proof (cases rule: parseArray_cases)
  case empty
  then show ?thesis by (simp add: Let_def)
next
  case loop
  then show ?thesis using LA [OF loop(2)] by (simp add: Let_def)
qed

lemma parseValue_fuel_mono_step:
  assumes O: "\<And>p r. parseObject Nd k p = Some r \<Longrightarrow> parseObject Nd k' p = Some r"
    and A: "\<And>p r. parseArray Nd k p = Some r \<Longrightarrow> parseArray Nd k' p = Some r"
    and r: "parseValue Nd (Suc k) p = Some r"
  shows "parseValue Nd (Suc k') p = Some r"
  using r
proof (cases rule: parseValue_cases)
  case eof
  then show ?thesis by simp
next
  case (object n err p')
  then show ?thesis
    using O [OF object(3)] by (simp add: Let_def del: parseObject.simps)
next
  case (array n err p')
  then show ?thesis
    using A [OF array(3)] by (simp add: Let_def del: parseArray.simps)
next
  case (string n err p')
  then show ?thesis by (simp add: Let_def)
next
  case (boolean n err p')
  then show ?thesis by (auto simp: Let_def)
next
  case (null n err p')
  then show ?thesis by (simp add: Let_def)
next
  case (number n err p')
  then show ?thesis by (simp add: Let_def)
qed

lemma parseObject_loop_fuel_mono_step:
  assumes V: "\<And>p r. parseValue Nd k p = Some r \<Longrightarrow> parseValue Nd k' p = Some r"
    and LO: "\<And>n p r. parseObject_loop Nd k n p = Some r \<Longrightarrow> parseObject_loop Nd k' n p = Some r"
    and r: "parseObject_loop Nd (Suc k) n p = Some r"
  shows "parseObject_loop Nd (Suc k') n p = Some r"
  using r
proof (cases rule: parseObject_loop_cases)
  case no_key
  then show ?thesis by (simp add: Let_def)
next
  case (key_error keyNode e p2)
  then show ?thesis by (simp add: Let_def)
next
  case (no_colon keyNode p2)
  then show ?thesis by (simp add: Let_def)
next
  case (value_error keyNode p2 valueNode e p5)
  then show ?thesis using V [OF value_error(4)] by (simp add: Let_def)
next
  case (closed keyNode p2 valueNode p5)
  then show ?thesis using V [OF closed(4)] by (simp add: Let_def)
next
  case (no_separator keyNode p2 valueNode p5)
  then show ?thesis using V [OF no_separator(4)] by (simp add: Let_def)
next
  case (continue keyNode p2 valueNode p5)
  then show ?thesis using V [OF continue(4)] LO [OF continue(6)] by (simp add: Let_def)
qed

lemma parseArray_loop_fuel_mono_step:
  assumes V: "\<And>p r. parseValue Nd k p = Some r \<Longrightarrow> parseValue Nd k' p = Some r"
    and LA: "\<And>n p r. parseArray_loop Nd k n p = Some r \<Longrightarrow> parseArray_loop Nd k' n p = Some r"
    and r: "parseArray_loop Nd (Suc k) n p = Some r"
  shows "parseArray_loop Nd (Suc k') n p = Some r"
  using r
proof (cases rule: parseArray_loop_cases)
  case (value_error valueNode e p5)
  then show ?thesis using V [OF value_error(1)] by (simp add: Let_def)
next
  case (closed valueNode p5)
  then show ?thesis using V [OF closed(1)] by (simp add: Let_def)
next
  case (no_separator valueNode p5)
  then show ?thesis using V [OF no_separator(1)] by (simp add: Let_def)
next
  case (continue valueNode p5)
  then show ?thesis using V [OF continue(1)] LA [OF continue(3)] by (simp add: Let_def)
qed

lemma fuel_mono_Suc:
  "(\<forall>p r. parseValue Nd k p = Some r \<longrightarrow> parseValue Nd (Suc k) p = Some r)
   \<and> (\<forall>n p r. parseObject_loop Nd k n p = Some r \<longrightarrow> parseObject_loop Nd (Suc k) n p = Some r)
   \<and> (\<forall>n p r. parseArray_loop Nd k n p = Some r \<longrightarrow> parseArray_loop Nd (Suc k) n p = Some r)"
proof (induction k)
  case 0
  show ?case by simp
next
  case (Suc k)
  then have V: "\<And>p r. parseValue Nd k p = Some r \<Longrightarrow> parseValue Nd (Suc k) p = Some r"
    and LO: "\<And>n p r. parseObject_loop Nd k n p = Some r \<Longrightarrow> parseObject_loop Nd (Suc k) n p = Some r"
    and LA: "\<And>n p r. parseArray_loop Nd k n p = Some r \<Longrightarrow> parseArray_loop Nd (Suc k) n p = Some r"
    by blast+
  have "parseValue Nd (Suc (Suc k)) p = Some r" if "parseValue Nd (Suc k) p = Some r" for p r
    using parseObject_fuel_mono_step [of Nd k "Suc k", OF LO]
      parseArray_fuel_mono_step [of Nd k "Suc k", OF LA] that
    by (rule parseValue_fuel_mono_step)
  moreover have "parseObject_loop Nd (Suc (Suc k)) n p = Some r"
    if "parseObject_loop Nd (Suc k) n p = Some r" for n p r
    using V LO that by (rule parseObject_loop_fuel_mono_step)
  moreover have "parseArray_loop Nd (Suc (Suc k)) n p = Some r"
    if "parseArray_loop Nd (Suc k) n p = Some r" for n p r
    using V LA that by (rule parseArray_loop_fuel_mono_step)
  ultimately show ?case by blast
qed

lemma parseValue_fuel_mono:
  assumes "parseValue Nd k p = Some r" "k \<le> k'"
  shows "parseValue Nd k' p = Some r"
  using assms(2,1)
proof (induction k' rule: dec_induct)
  case base
  then show ?case .
next
  case (step j)
  then show ?case using fuel_mono_Suc [of Nd j] by blast
qed

lemma Parse_fuel_mono:
  assumes "Parse Nd k p = Some r" "k \<le> k'"
  shows "Parse Nd k' p = Some r"
  using assms(1)
proof (cases rule: Parse_cases)
  case (error n e p')
  then show ?thesis
    using parseValue_fuel_mono [OF error(1) assms(2)] by (simp add: Parse_def)
next
  case (success n q)
  then show ?thesis
    using parseValue_fuel_mono [OF success(1) assms(2)] by (simp add: Parse_def)
qed

subsection \<open>Enough fuel: the parsers return\<close>

lemma advances_remaining:
  "advances p q \<Longrightarrow> length_p q - pos q \<le> length_p p - pos p"
  by (auto simp: advances_def intro: diff_le_mono2)

lemma consumeChar_remaining:
  "\<not> isEOF p \<Longrightarrow> length_p (consumeChar p) - pos (consumeChar p) < length_p p - pos p"
  by (simp add: isEOF_def consumeChar_def Let_def)

lemma parseObject_loop_fuel_step:
  assumes V: "\<And>q. wf_parser q \<Longrightarrow> 2 * (length_p q - pos q) + 1 \<le> k \<Longrightarrow> parseValue Nd k q \<noteq> None"
    and L: "\<And>m q. wf_parser q \<Longrightarrow> 2 * (length_p q - pos q) + 2 \<le> k
              \<Longrightarrow> parseObject_loop Nd k m q \<noteq> None"
    and wf: "wf_parser p"
    and fuel: "2 * (length_p p - pos p) + 2 \<le> Suc k"
  shows "parseObject_loop Nd (Suc k) n p \<noteq> None"
proof -
  define p1 where "p1 = skipWhitespace p"
  obtain keyNode e p2 where key: "parseString p1 = ((keyNode, e), p2)"
    by (metis surj_pair)
  define p4 where "p4 = consumeChar (skipWhitespace p2)"
  have wf1: "wf_parser p1"
    using wf by (simp add: p1_def wf_parser_advances [of p])
  have a2: "advances p1 p2" and wf2: "wf_parser p2"
    using object_entry_advances [OF wf1 key] by simp_all
  have a4: "advances p p4"
    unfolding p4_def using a2
    by (metis p1_def advances_trans advances_skipWhitespace advances_consumeChar)
  have wf4: "wf_parser p4"
    using a4 wf by (rule wf_parser_advances)
  have "2 * (length_p p4 - pos p4) + 1 \<le> k"
    using advances_remaining [OF a4] fuel by simp
  from V [OF wf4 this] obtain valueNode e' p5 where
    val: "parseValue Nd k p4 = Some ((valueNode, e'), p5)"
    by (metis not_None_eq surj_pair)
  have a5: "advances p4 p5"
    using parseValue_post [OF wf4 val] by (rule value_post_advances)
  define p6 where "p6 = skipWhitespace p5"
  have a6: "advances p p6"
    unfolding p6_def using a4 a5 by (metis advances_trans advances_skipWhitespace)
  have wf7: "wf_parser (consumeChar p6)"
    using a6 wf by (simp add: wf_parser_advances [of p])
  have cont: "parseObject_loop Nd k m (consumeChar p6) \<noteq> None" if "peekChar p6 = 0x2C" for m
  proof -
    have "\<not> isEOF p6"
      using that by (intro peekChar_nonzero) simp
    from consumeChar_remaining [OF this] advances_remaining [OF a6] fuel
    have "2 * (length_p (consumeChar p6) - pos (consumeChar p6)) + 2 \<le> k"
      by simp
    then show ?thesis
      using wf7 by (intro L)
  qed
  show ?thesis
    using key val cont
    by (subst parseObject_loop.simps)
       (auto simp: Let_def p1_def [symmetric] p4_def [symmetric] p6_def [symmetric]
          simp del: parseValue.simps parseObject_loop.simps)
qed

lemma parseArray_loop_fuel_step:
  assumes V: "\<And>q. wf_parser q \<Longrightarrow> 2 * (length_p q - pos q) + 1 \<le> k \<Longrightarrow> parseValue Nd k q \<noteq> None"
    and L: "\<And>m q. wf_parser q \<Longrightarrow> 2 * (length_p q - pos q) + 2 \<le> k
              \<Longrightarrow> parseArray_loop Nd k m q \<noteq> None"
    and wf: "wf_parser p"
    and fuel: "2 * (length_p p - pos p) + 2 \<le> Suc k"
  shows "parseArray_loop Nd (Suc k) n p \<noteq> None"
proof -
  have "2 * (length_p p - pos p) + 1 \<le> k"
    using fuel by simp
  from V [OF wf this] obtain valueNode e' p5 where
    val: "parseValue Nd k p = Some ((valueNode, e'), p5)"
    by (metis not_None_eq surj_pair)
  have a5: "advances p p5"
    using parseValue_post [OF wf val] by (rule value_post_advances)
  define p6 where "p6 = skipWhitespace p5"
  have a6: "advances p p6"
    unfolding p6_def using a5 by (metis advances_trans advances_skipWhitespace)
  have a8: "advances (consumeChar p6) (skipWhitespace (consumeChar p6))"
    by simp
  have wf8: "wf_parser (skipWhitespace (consumeChar p6))"
    using a6 wf by (simp add: wf_parser_advances [of p] wf_parser_advances [of "consumeChar p6"])
  have cont: "parseArray_loop Nd k m (skipWhitespace (consumeChar p6)) \<noteq> None"
    if "peekChar p6 = 0x2C" for m
  proof -
    have "\<not> isEOF p6"
      using that by (intro peekChar_nonzero) simp
    from consumeChar_remaining [OF this] advances_remaining [OF a6] advances_remaining [OF a8] fuel
    have "2 * (length_p (skipWhitespace (consumeChar p6)) - pos (skipWhitespace (consumeChar p6))) + 2 \<le> k"
      by simp
    then show ?thesis
      using wf8 by (intro L)
  qed
  show ?thesis
    using val cont
    by (subst parseArray_loop.simps)
       (auto simp: Let_def p6_def [symmetric] simp del: parseValue.simps parseArray_loop.simps)
qed

lemma first_loop_fuel:
  assumes "\<not> isEOF p" "2 * (length_p p - pos p) \<le> k"
  shows "2 * (length_p (skipWhitespace (consumeChar p)) - pos (skipWhitespace (consumeChar p))) + 2 \<le> k"
  using consumeChar_remaining [OF assms(1)]
    advances_remaining [OF advances_skipWhitespace, of "consumeChar p"] assms(2)
  by simp

lemma parseObject_fuel_step:
  assumes L: "\<And>m q. wf_parser q \<Longrightarrow> 2 * (length_p q - pos q) + 2 \<le> k
              \<Longrightarrow> parseObject_loop Nd k m q \<noteq> None"
    and wf: "wf_parser p" and ne: "\<not> isEOF p"
    and fuel: "2 * (length_p p - pos p) \<le> k"
  shows "parseObject Nd k p \<noteq> None"
proof -
  have "wf_parser (skipWhitespace (consumeChar p))"
    using wf by (simp add: wf_parser_advances [of "consumeChar p"])
  from L [OF this first_loop_fuel [OF ne fuel]] show ?thesis
    by (simp add: Let_def del: parseObject_loop.simps)
qed

lemma parseArray_fuel_step:
  assumes L: "\<And>m q. wf_parser q \<Longrightarrow> 2 * (length_p q - pos q) + 2 \<le> k
              \<Longrightarrow> parseArray_loop Nd k m q \<noteq> None"
    and wf: "wf_parser p" and ne: "\<not> isEOF p"
    and fuel: "2 * (length_p p - pos p) \<le> k"
  shows "parseArray Nd k p \<noteq> None"
proof -
  have "wf_parser (skipWhitespace (consumeChar p))"
    using wf by (simp add: wf_parser_advances [of "consumeChar p"])
  from L [OF this first_loop_fuel [OF ne fuel]] show ?thesis
    by (simp add: Let_def del: parseArray_loop.simps)
qed

lemma parseValue_fuel_step:
  assumes O: "\<And>q. wf_parser q \<Longrightarrow> \<not> isEOF q \<Longrightarrow> 2 * (length_p q - pos q) \<le> k
              \<Longrightarrow> parseObject Nd k q \<noteq> None"
    and A: "\<And>q. wf_parser q \<Longrightarrow> \<not> isEOF q \<Longrightarrow> 2 * (length_p q - pos q) \<le> k
              \<Longrightarrow> parseArray Nd k q \<noteq> None"
    and wf: "wf_parser p"
    and fuel: "2 * (length_p p - pos p) + 1 \<le> Suc k"
  shows "parseValue Nd (Suc k) p \<noteq> None"
proof -
  define p1 where "p1 = skipWhitespace p"
  have wf1: "wf_parser p1"
    using wf by (simp add: p1_def wf_parser_advances [of p])
  have f1: "2 * (length_p p1 - pos p1) \<le> k"
    using advances_remaining [OF advances_skipWhitespace, of p] fuel by (simp add: p1_def)
  have "parseObject Nd k p1 \<noteq> None" "parseArray Nd k p1 \<noteq> None" if "\<not> isEOF p1"
    using O [OF wf1 that f1] A [OF wf1 that f1] by simp_all
  then show ?thesis
    by (auto simp: Let_def p1_def [symmetric] split: prod.splits
        simp del: parseObject.simps parseArray.simps)
qed

lemma fuel_suffices:
  "(\<forall>p. wf_parser p \<longrightarrow> 2 * (length_p p - pos p) + 1 \<le> k \<longrightarrow> parseValue Nd k p \<noteq> None)
   \<and> (\<forall>n p. wf_parser p \<longrightarrow> 2 * (length_p p - pos p) + 2 \<le> k
        \<longrightarrow> parseObject_loop Nd k n p \<noteq> None)
   \<and> (\<forall>n p. wf_parser p \<longrightarrow> 2 * (length_p p - pos p) + 2 \<le> k
        \<longrightarrow> parseArray_loop Nd k n p \<noteq> None)"
proof (induction k)
  case 0
  show ?case by simp
next
  case (Suc k)
  then have V: "\<And>q. wf_parser q \<Longrightarrow> 2 * (length_p q - pos q) + 1 \<le> k \<Longrightarrow> parseValue Nd k q \<noteq> None"
    and LO: "\<And>m q. wf_parser q \<Longrightarrow> 2 * (length_p q - pos q) + 2 \<le> k
              \<Longrightarrow> parseObject_loop Nd k m q \<noteq> None"
    and LA: "\<And>m q. wf_parser q \<Longrightarrow> 2 * (length_p q - pos q) + 2 \<le> k
              \<Longrightarrow> parseArray_loop Nd k m q \<noteq> None"
    by blast+
  have "parseValue Nd (Suc k) p \<noteq> None"
    if "wf_parser p" "2 * (length_p p - pos p) + 1 \<le> Suc k" for p
    using parseObject_fuel_step [of k Nd, OF LO] parseArray_fuel_step [of k Nd, OF LA] that
    by (rule parseValue_fuel_step)
  moreover have "parseObject_loop Nd (Suc k) n p \<noteq> None"
    if "wf_parser p" "2 * (length_p p - pos p) + 2 \<le> Suc k" for n p
    using V LO that by (rule parseObject_loop_fuel_step)
  moreover have "parseArray_loop Nd (Suc k) n p \<noteq> None"
    if "wf_parser p" "2 * (length_p p - pos p) + 2 \<le> Suc k" for n p
    using V LA that by (rule parseArray_loop_fuel_step)
  ultimately show ?case by blast
qed

lemma Parse_returns:
  assumes "wf_parser p" "fuel_of p \<le> k"
  shows "\<exists>r. Parse Nd k p = Some r"
proof -
  have "parseValue Nd k p \<noteq> None"
    using fuel_suffices [of k Nd] assms by (simp add: fuel_of_def)
  then show ?thesis
    by (auto simp: Parse_def split: prod.splits)
qed

lemma wf_NewParser [simp]: "wf_parser (NewParser input)"
  by (simp add: wf_parser_def NewParser_def Let_def)

subsection \<open>Termination, determinism and the error messages\<close>

lemma structurally_equal_refl: "structurally_equal n n"
proof (induction n)
  case (Node t v cs sl sc el ec src)
  have "list_all2 (rel_option structurally_equal) cs cs"
    using Node by (auto simp: list_all2_same option.rel_sel split: option.splits)
  then show ?case by simp
qed

text \<open>
  Claim C6. On the unclosed object, the unclosed array, the unclosed string and the
  misspelt boolean of the test suite, \<^verbatim>\<open>Parse\<close> returns an error whose message contains
  \<^verbatim>\<open>expected ',' or '}' in object\<close>, \<^verbatim>\<open>expected ',' or ']' in array\<close>,
  \<^verbatim>\<open>unexpected end of input in string\<close> and \<^verbatim>\<open>invalid boolean\<close>, respectively.
\<close>

theorem Parse_error_messages:
  \<open>(\<exists>n p. ParseInput Nd ''{"key": "value"'' =
            Some ((n, Some ''expected ',' or '}' in object at line 1 col 16''), p))
   \<and> sublist ''expected ',' or '}' in object''
        ''expected ',' or '}' in object at line 1 col 16''
   \<and> (\<exists>n p. ParseInput Nd ''[1, 2, 3'' =
            Some ((n, Some ''expected ',' or ']' in array at line 1 col 9''), p))
   \<and> sublist ''expected ',' or ']' in array''
        ''expected ',' or ']' in array at line 1 col 9''
   \<and> (\<exists>n p. ParseInput Nd ''{"key": "value'' =
            Some ((n, Some ''unexpected end of input in string''), p))
   \<and> sublist ''unexpected end of input in string'' ''unexpected end of input in string''
   \<and> (\<exists>n p. ParseInput Nd ''{"key": tru}'' =
            Some ((n, Some ''invalid boolean at line 1 col 9''), p))
   \<and> sublist ''invalid boolean'' ''invalid boolean at line 1 col 9''\<close>
proof -
  have ex: "\<exists>n p. x = Some ((n, Some m), p)" if "map_option (snd \<circ> fst) x = Some (Some m)"
    for x :: "((Node option \<times> string option) \<times> Parser) option" and m
    using that by (cases x) auto
  have 1: \<open>map_option (snd \<circ> fst) (ParseInput Nd ''{"key": "value"'') =
      Some (Some ''expected ',' or '}' in object at line 1 col 16'')\<close>
    by code_simp
  have 2: \<open>map_option (snd \<circ> fst) (ParseInput Nd ''[1, 2, 3'') =
      Some (Some ''expected ',' or ']' in array at line 1 col 9'')\<close>
    by code_simp
  have 3: \<open>map_option (snd \<circ> fst) (ParseInput Nd ''{"key": "value'') =
      Some (Some ''unexpected end of input in string'')\<close>
    by code_simp
  have 4: \<open>map_option (snd \<circ> fst) (ParseInput Nd ''{"key": tru}'') =
      Some (Some ''invalid boolean at line 1 col 9'')\<close>
    by code_simp
  have s1: "sublist ''expected ',' or '}' in object''
        ''expected ',' or '}' in object at line 1 col 16''"
    by code_simp
  have s2: "sublist ''expected ',' or ']' in array''
        ''expected ',' or ']' in array at line 1 col 9''"
    by code_simp
  have s4: "sublist ''invalid boolean'' ''invalid boolean at line 1 col 9''"
    by code_simp
  show ?thesis
    using ex [OF 1] ex [OF 2] ex [OF 3] ex [OF 4] s1 s2 s4 by simp
qed

text \<open>
  Claim C9. \<^verbatim>\<open>Parse\<close> terminates on every input: from a well-formed parser, two units
  of fuel for every rune that is left, and one, are enough for a result, so the nesting
  of calls and the iterations of the loops are bounded by the length of the input. The
  bound rests on the cursor: \<^verbatim>\<open>consumeChar\<close> changes nothing at the end of the input, and
  it moves past a separator \<^verbatim>\<open>,\<close> and past an opening bracket.
\<close>

theorem Parse_terminates:
  "(wf_parser p \<and> fuel_of p \<le> k \<longrightarrow> (\<exists>r. Parse Nd k p = Some r))
   \<and> (\<exists>r. ParseInput Nd input = Some r)
   \<and> (isEOF q \<longrightarrow> consumeChar q = q)
   \<and> (peekChar s \<in> {0x2C, 0x7B, 0x5B} \<longrightarrow> pos (consumeChar s) = pos s + 1)"
proof -
  have "\<exists>r. ParseInput Nd input = Some r"
    unfolding ParseInput_def by (rule Parse_returns) simp_all
  moreover have "pos (consumeChar s) = pos s + 1" if "peekChar s \<in> {0x2C, 0x7B, 0x5B}"
  proof -
    have "\<not> isEOF s"
      using that by (intro peekChar_nonzero) auto
    then show ?thesis by (simp add: consumeChar_not_EOF)
  qed
  ultimately show ?thesis
    using Parse_returns [of p k Nd] consumeChar_EOF [of q] by blast
qed

theorem Parse_terminates_witness:
  "wf_parser (NewParser ''[1, 2]'') \<and> fuel_of (NewParser ''[1, 2]'') \<le> 13
   \<and> Parse no_Nd 13 (NewParser ''[1, 2]'') =
       Some ((Some (Node NodeArray []
                [Some (Node NodeNumber ''1'' [] 1 2 1 3 ''[1, 2]''),
                 Some (Node NodeNumber ''2'' [] 1 5 1 6 ''[1, 2]'')]
                1 1 1 7 ''[1, 2]''), None),
             \<lparr>runes = [91, 49, 44, 32, 50, 93], pos = 6, line = 1, col = 7,
              length_p = 6, source = ''[1, 2]''\<rparr>)
   \<and> isEOF (NewParser []) \<and> consumeChar (NewParser []) = NewParser []
   \<and> peekChar (NewParser ''[1, 2]'') = 0x5B
   \<and> pos (consumeChar (NewParser ''[1, 2]'')) = pos (NewParser ''[1, 2]'') + 1"
proof -
  have f: "fuel_of (NewParser ''[1, 2]'') \<le> 13"
    by code_simp
  have e: "Parse no_Nd 13 (NewParser ''[1, 2]'') =
       Some ((Some (Node NodeArray []
                [Some (Node NodeNumber ''1'' [] 1 2 1 3 ''[1, 2]''),
                 Some (Node NodeNumber ''2'' [] 1 5 1 6 ''[1, 2]'')]
                1 1 1 7 ''[1, 2]''), None),
             \<lparr>runes = [91, 49, 44, 32, 50, 93], pos = 6, line = 1, col = 7,
              length_p = 6, source = ''[1, 2]''\<rparr>)"
    by code_simp
  have q: "isEOF (NewParser [])"
    by code_simp
  have s: "peekChar (NewParser ''[1, 2]'') = 0x5B"
    by code_simp
  from Parse_terminates [of "NewParser ''[1, 2]''" 13 no_Nd "[]" "NewParser []" "NewParser ''[1, 2]''"]
  show ?thesis
    using f e q s by simp
qed



subsection \<open>The debug context\<close>

lemma DebugContext_loop_upto:
  "0 \<le> i \<Longrightarrow> e < int (length ls) \<Longrightarrow>
   DebugContext_loop n ls e i b = Some (b @ concat (map (render_line n ls) [i..e]))"
proof (induction "nat (e + 1 - i)" arbitrary: i b)
  case 0
  then have "\<not> i \<le> e"
    by simp
  then show ?case
    by (subst DebugContext_loop.simps) simp
next
  case (Suc k)
  then have le: "i \<le> e" and r: "\<not> (i < 0 \<or> int (length ls) \<le> i)"
    by simp_all
  have "DebugContext_loop n ls e i b =
      DebugContext_loop n ls e (i + 1) (b @ render_line n ls i)"
    using le r
    by (subst DebugContext_loop.simps) (simp add: Let_def render_line_def)
  also have "\<dots> = Some ((b @ render_line n ls i) @ concat (map (render_line n ls) [i + 1..e]))"
    using Suc by (intro Suc(1)) simp_all
  finally show ?case
    using le by (simp add: upto_rec1 [of i e])
qed

text \<open>
  \<^verbatim>\<open>DebugContext\<close> never reads outside the lines: it writes the lines of the window
  between the two bounds it computed, clamped to the document.
\<close>

lemma DebugContext_clamped:
  "DebugContext n linesBefore linesAfter =
     Some (concat (map (render_line n (split_lines (Source n)))
       [max 0 (int64 (int64 (StartLine n - 1) - linesBefore)) ..
        min (int (length (split_lines (Source n))) - 1)
            (int64 (int64 (EndLine n - 1) + linesAfter))]))"
proof -
  define ls where "ls = split_lines (Source n)"
  define s where "s = int64 (int64 (StartLine n - 1) - linesBefore)"
  define e where "e = int64 (int64 (EndLine n - 1) + linesAfter)"
  have "DebugContext n linesBefore linesAfter =
      DebugContext_loop n ls (if int (length ls) \<le> e then int (length ls) - 1 else e)
        (if s < 0 then 0 else s) []"
    by (simp add: DebugContext_def Let_def ls_def s_def e_def)
  also have "\<dots> = Some ([] @ concat (map (render_line n ls)
      [(if s < 0 then 0 else s) .. (if int (length ls) \<le> e then int (length ls) - 1 else e)]))"
    by (rule DebugContext_loop_upto) auto
  also have "(if s < 0 then 0 else s) = max 0 s"
    by simp
  also have "(if int (length ls) \<le> e then int (length ls) - 1 else e) = min (int (length ls) - 1) e"
    by auto
  finally show ?thesis
    by (simp add: ls_def s_def e_def)
qed

lemma DebugContext_no_panic: "DebugContext n linesBefore linesAfter \<noteq> None"
  by (simp add: DebugContext_clamped)

text \<open>
  While the two bounds do not leave the range of \<^verbatim>\<open>int\<close>, the window is the one of the
  specification.
\<close>

lemma int64_id: "- (2 ^ 63) \<le> i \<Longrightarrow> i < 2 ^ 63 \<Longrightarrow> int64 i = i"
  by (simp add: int64_def signed_take_bit_int_eq_self)

lemma DebugContext_window:
  assumes "\<bar>StartLine n\<bar> < 2 ^ 62" "\<bar>EndLine n\<bar> < 2 ^ 62"
    and "0 \<le> linesBefore" "linesBefore < 2 ^ 62" "0 \<le> linesAfter" "linesAfter < 2 ^ 62"
  shows "DebugContext n linesBefore linesAfter =
     Some (concat (map (render_line n (split_lines (Source n))) (window n linesBefore linesAfter)))"
proof -
  have "int64 (StartLine n - 1) = StartLine n - 1" "int64 (EndLine n - 1) = EndLine n - 1"
    using assms(1,2) by (simp_all add: int64_id)
  moreover have "int64 (StartLine n - 1 - linesBefore) = StartLine n - 1 - linesBefore"
    "int64 (EndLine n - 1 + linesAfter) = EndLine n - 1 + linesAfter"
    using assms by (simp_all add: int64_id)
  ultimately show ?thesis
    by (simp add: DebugContext_clamped window_def)
qed

text \<open>
  Claim C7 fails when \<^verbatim>\<open>n.EndLine - 1 + linesAfter\<close> leaves the range of \<^verbatim>\<open>int\<close>. The
  root of the two-line document \<open>[\<close>, newline, \<open>]\<close> ends on line 2; with
  \<open>linesAfter = 2^63 - 1\<close> the sum wraps to a negative number, the guard
  \<^verbatim>\<open>end >= len(sourceLines)\<close> does not fire and nothing is written, where the window of
  the claim is the whole document: the lines of indices 0 and 1. One less, and the two
  lines are written.
\<close>

theorem DebugContext_overflow:
  "ParseInput no_Nd [CHR ''['', CHR 0x0A, CHR '']''] =
     Some ((Some (Node NodeArray [] [] 1 1 2 2 [CHR ''['', CHR 0x0A, CHR '']'']), None),
           \<lparr>runes = [91, 10, 93], pos = 3, line = 2, col = 2, length_p = 3,
            source = [CHR ''['', CHR 0x0A, CHR '']'']\<rparr>)
   \<and> split_lines [CHR ''['', CHR 0x0A, CHR '']''] = [''['', '']'']
   \<and> window (Node NodeArray [] [] 1 1 2 2 [CHR ''['', CHR 0x0A, CHR '']''])
        0 9223372036854775807 = [0, 1]
   \<and> DebugContext (Node NodeArray [] [] 1 1 2 2 [CHR ''['', CHR 0x0A, CHR '']''])
        0 9223372036854775807 = Some []
   \<and> DebugContext (Node NodeArray [] [] 1 1 2 2 [CHR ''['', CHR 0x0A, CHR '']''])
        0 9223372036854775806 =
       Some (''1: ['' @ [CHR 0x0A] @ '' ^ start'' @ [CHR 0x0A] @ ''2: ]'' @ [CHR 0x0A])"
  by code_simp

end
